theory Spec2Isabelle
  imports Main "HOL-Library.Sublist" "HOL-Library.Word"
begin

section \<open>The Express adapter of packages/remix-express/server.ts\<close>

text \<open>
  The adapter turns an Express request into a fetch-style request, calls the Remix
  runtime and writes the runtime's response back onto the Express response. Everything
  the TypeScript does beyond returning a value is explicit here:
  \<^item> a thrown JavaScript value or a rejected promise is \<open>Inl e\<close> of a sum type;
  \<^item> the Express response \<open>res\<close> is the list of calls made on it so far, oldest first;
  \<^item> the \<open>next\<close> function is the list of values it was called with;
  \<^item> what the surroundings do (the \<open>URL\<close> and \<open>NodeRequest\<close> constructors, the
    validation done by the \<open>Headers\<close> class, whether a method of \<open>res\<close> or \<open>next\<close>
    throws) is a parameter.
\<close>

subsection \<open>Values shared by both sides\<close>

datatype thrown = Thrown string

type_synonym byte = "8 word"

text \<open>
  A readable stream is described by what it will deliver: its chunks, and the error it
  emits after them when it fails mid-flight (\<open>None\<close> when it ends normally).
\<close>

datatype readable = Readable (chunks: "byte list list") (failure: "thrown option")

subsection \<open>The host side: Express request and response\<close>

text \<open>
  \<open>express.Request["headers"]\<close>: each name maps to a string, an array of strings or
  \<open>undefined\<close>. The collection is given as \<open>Object.entries\<close> lists it.
\<close>

datatype header_value = Undefined | Single string | Multi "string list"

type_synonym host_headers = "(string \<times> header_value) list"

record host_request =
  req_protocol :: string
  req_host :: "string option"
  req_url :: string
  req_method :: string
  req_headers :: host_headers
  req_stream :: readable

text \<open>
  The calls the adapter makes on \<open>res\<close>: \<open>res.status(n)\<close>, \<open>res.append(key, value)\<close>,
  \<open>res.end(buffer)\<close> or \<open>res.end()\<close>, and \<open>body.pipe(res)\<close>.
\<close>

datatype host_op =
    ResStatus int
  | ResAppend string string
  | ResEnd "byte list option"
  | PipeToRes readable

text \<open>
  Whether a call on \<open>res\<close> throws is up to Express: a host is a function from the calls
  already made and the call attempted to the value thrown, if any.
\<close>

type_synonym host = "host_op list \<Rightarrow> host_op \<Rightarrow> thrown option"

definition res_call :: "host \<Rightarrow> host_op \<Rightarrow> host_op list \<Rightarrow> (thrown + unit) \<times> host_op list" where
  "res_call h c log = (case h log c of Some e \<Rightarrow> (Inl e, log) | None \<Rightarrow> (Inr (), log @ [c]))"

subsection \<open>The standardized side: Headers, Request, Response\<close>

text \<open>
  Modelled from the spec: the class \<open>Headers\<close> imported from \<open>@remix-run/node\<close> is not
  in the source file. The spec describes it as a multi-value header set: a container in
  which one name maps to several ordered values; \<open>append\<close> adds a value after the ones
  already held under the name, \<open>set\<close> leaves exactly one value under the name, and
  \<open>raw()\<close> gives each name with its list of values. The container is kept in its raw
  form, names in insertion order. Names are compared as they are written: the spec
  states no other rule, and Express hands over the header names of a request in
  lower case.
\<close>

type_synonym node_headers = "(string \<times> string list) list"

fun headers_append :: "string \<Rightarrow> string \<Rightarrow> node_headers \<Rightarrow> node_headers" where
  "headers_append name v [] = [(name, [v])]"
| "headers_append name v ((n, vs) # rest) =
     (if n = name then (n, vs @ [v]) # rest else (n, vs) # headers_append name v rest)"

fun headers_set :: "string \<Rightarrow> string \<Rightarrow> node_headers \<Rightarrow> node_headers" where
  "headers_set name v [] = [(name, [v])]"
| "headers_set name v ((n, vs) # rest) =
     (if n = name then (n, [v]) # rest else (n, vs) # headers_set name v rest)"

text \<open>\<open>req.pipe(new PassThrough({ highWaterMark: n }))\<close>: the relay and the stream feeding it.\<close>

datatype request_body = PassThrough nat readable

text \<open>A \<open>NodeRequest\<close> is what its constructor was given: the URL string and the init.\<close>

record node_request =
  request_url :: string
  init_method :: string
  init_headers :: node_headers
  init_body :: "request_body option"

text \<open>
  The library calls that may throw: \<open>new URL(input, base).toString()\<close>, the check
  that \<open>Headers\<close> makes of a name and a value before it stores them, and the
  constructor \<open>new NodeRequest(url, init)\<close>.
\<close>

record node_lib =
  new_URL :: "string \<Rightarrow> string \<Rightarrow> thrown + string"
  validate :: "string \<Rightarrow> string \<Rightarrow> thrown option"
  new_Request :: "node_request \<Rightarrow> thrown option"

definition node_append :: "node_lib \<Rightarrow> string \<Rightarrow> string \<Rightarrow> node_headers \<Rightarrow> thrown + node_headers" where
  "node_append lib name v hs =
     (case validate lib name v of Some e \<Rightarrow> Inl e | None \<Rightarrow> Inr (headers_append name v hs))"

definition node_set :: "node_lib \<Rightarrow> string \<Rightarrow> string \<Rightarrow> node_headers \<Rightarrow> thrown + node_headers" where
  "node_set lib name v hs =
     (case validate lib name v of Some e \<Rightarrow> Inl e | None \<Rightarrow> Inr (headers_set name v hs))"

text \<open>
  \<open>response.body\<close>: null or undefined, a Buffer, an object with a \<open>pipe\<close> method, an
  object whose \<open>pipe\<close> property is truthy but not a function, or any other value (the
  response is cast unchecked, so a string or \<open>{ pipe: 1 }\<close> can arrive here).
\<close>

datatype response_body =
    NoBody
  | BufferBody "byte list"
  | StreamBody readable
  | OtherBody string
  | PipeValueBody string

record node_response =
  status :: int
  headers_raw :: node_headers
  body :: response_body

subsection \<open>createRemixHeaders\<close>

text \<open>JavaScript truthiness of a header value: \<open>undefined\<close> and \<open>""\<close> are falsy, every array is truthy.\<close>

fun truthy :: "header_value \<Rightarrow> bool" where
  "truthy Undefined = False"
| "truthy (Single s) = (s \<noteq> [])"
| "truthy (Multi vs) = True"

text \<open>The inner loop \<open>for (const value of values) headers.append(key, value)\<close>.\<close>

fun append_each :: "node_lib \<Rightarrow> string \<Rightarrow> string list \<Rightarrow> node_headers \<Rightarrow> thrown + node_headers" where
  "append_each lib key [] hs = Inr hs"
| "append_each lib key (v # vs) hs =
     (case node_append lib key v hs of Inl e \<Rightarrow> Inl e | Inr hs' \<Rightarrow> append_each lib key vs hs')"

text \<open>The outer loop over \<open>Object.entries(requestHeaders)\<close>.\<close>

fun headers_loop :: "node_lib \<Rightarrow> host_headers \<Rightarrow> node_headers \<Rightarrow> thrown + node_headers" where
  "headers_loop lib [] hs = Inr hs"
| "headers_loop lib ((key, vals) # rest) hs =
     (if truthy vals then
        (case (case vals of
                 Multi vs \<Rightarrow> append_each lib key vs hs
               | Single s \<Rightarrow> node_set lib key s hs
               | Undefined \<Rightarrow> Inr hs) of
           Inl e \<Rightarrow> Inl e
         | Inr hs' \<Rightarrow> headers_loop lib rest hs')
      else headers_loop lib rest hs)"

definition createRemixHeaders :: "node_lib \<Rightarrow> host_headers \<Rightarrow> thrown + node_headers" where
  "createRemixHeaders lib requestHeaders = headers_loop lib requestHeaders []"

subsection \<open>createRemixRequest\<close>

definition createRemixRequest :: "node_lib \<Rightarrow> host_request \<Rightarrow> thrown + node_request" where
  "createRemixRequest lib req =
     (let origin = req_protocol req @ ''://'' @
                     (case req_host req of None \<Rightarrow> ''undefined'' | Some h \<Rightarrow> h)
      in case new_URL lib (req_url req) origin of
           Inl e \<Rightarrow> Inl e
         | Inr u \<Rightarrow>
             (case createRemixHeaders lib (req_headers req) of
                Inl e \<Rightarrow> Inl e
              | Inr hs \<Rightarrow>
                  (let request =
                         \<lparr> request_url = u,
                           init_method = req_method req,
                           init_headers = hs,
                           init_body =
                             (if req_method req \<noteq> ''GET'' \<and> req_method req \<noteq> ''HEAD''
                              then Some (PassThrough 16384 (req_stream req))
                              else None) \<rparr>
                   in case new_Request lib request of
                        Some e \<Rightarrow> Inl e
                      | None \<Rightarrow> Inr request)))"

subsection \<open>sendRemixResponse\<close>

text \<open>The inner loop \<open>for (const value of values) res.append(key, value)\<close>.\<close>

fun append_values :: "host \<Rightarrow> string \<Rightarrow> string list \<Rightarrow> host_op list \<Rightarrow> (thrown + unit) \<times> host_op list" where
  "append_values h key [] log = (Inr (), log)"
| "append_values h key (v # vs) log =
     (case res_call h (ResAppend key v) log of
        (Inl e, log') \<Rightarrow> (Inl e, log')
      | (Inr u, log') \<Rightarrow> append_values h key vs log')"

text \<open>The outer loop over \<open>Object.entries(response.headers.raw())\<close>.\<close>

fun append_entries :: "host \<Rightarrow> node_headers \<Rightarrow> host_op list \<Rightarrow> (thrown + unit) \<times> host_op list" where
  "append_entries h [] log = (Inr (), log)"
| "append_entries h ((key, vals) # rest) log =
     (case append_values h key vals log of
        (Inl e, log') \<Rightarrow> (Inl e, log')
      | (Inr u, log') \<Rightarrow> append_entries h rest log')"

definition sendRemixResponse :: "host \<Rightarrow> node_response \<Rightarrow> host_op list \<Rightarrow> (thrown + unit) \<times> host_op list" where
  "sendRemixResponse h response log =
     (case res_call h (ResStatus (status response)) log of
        (Inl e, log1) \<Rightarrow> (Inl e, log1)
      | (Inr u, log1) \<Rightarrow>
          (case append_entries h (headers_raw response) log1 of
             (Inl e, log2) \<Rightarrow> (Inl e, log2)
           | (Inr u', log2) \<Rightarrow>
               (case body response of
                  BufferBody b \<Rightarrow> res_call h (ResEnd (Some b)) log2
                | StreamBody s \<Rightarrow> res_call h (PipeToRes s) log2
                | PipeValueBody v \<Rightarrow>
                    (Inl (Thrown ''TypeError: response.body.pipe is not a function''), log2)
                | _ \<Rightarrow> res_call h (ResEnd None) log2)))"

subsection \<open>createRequestHandler\<close>

text \<open>What one run of the middleware did: the calls on \<open>res\<close> and the calls of \<open>next\<close>.\<close>

record exchange =
  res_ops :: "host_op list"
  next_calls :: "thrown list"

definition fresh :: exchange where
  "fresh = \<lparr> res_ops = [], next_calls = [] \<rparr>"

text \<open>
  The \<open>try\<close> block. \<open>getLoadContext\<close> is the optional callback, given the request and
  the response as it stands; without it the context is \<open>undefined\<close> (\<open>None\<close>).
  \<open>handleRequest\<close> is the handler made by the runtime's factory: the awaited promise
  resolves to a response or rejects. The options \<open>beforeRequest\<close>, \<open>beforeResponse\<close>,
  \<open>build\<close> and \<open>mode\<close> are only handed on to that factory, so the handler stands
  for them. \<open>load_context\<close> is the conditional expression that \<open>loadContext\<close> is
  bound to.
\<close>

definition load_context ::
  "(host_request \<Rightarrow> host_op list \<Rightarrow> thrown + 'c) option \<Rightarrow>
   host_request \<Rightarrow> host_op list \<Rightarrow> thrown + 'c option" where
  "load_context getLoadContext req log =
     (case getLoadContext of
        Some f \<Rightarrow> (case f req log of Inl e \<Rightarrow> Inl e | Inr c \<Rightarrow> Inr (Some c))
      | None \<Rightarrow> Inr None)"

definition try_block ::
  "node_lib \<Rightarrow> (host_request \<Rightarrow> host_op list \<Rightarrow> thrown + 'c) option \<Rightarrow>
   (node_request \<Rightarrow> 'c option \<Rightarrow> thrown + node_response) \<Rightarrow>
   host \<Rightarrow> host_request \<Rightarrow> exchange \<Rightarrow> (thrown + unit) \<times> exchange" where
  "try_block lib getLoadContext handleRequest h req x =
     (case createRemixRequest lib req of
        Inl e \<Rightarrow> (Inl e, x)
      | Inr request \<Rightarrow>
          (case load_context getLoadContext req (res_ops x) of
             Inl e \<Rightarrow> (Inl e, x)
           | Inr loadContext \<Rightarrow>
               (case handleRequest request loadContext of
                  Inl e \<Rightarrow> (Inl e, x)
                | Inr response \<Rightarrow>
                    (case sendRemixResponse h response (res_ops x) of
                       (r, log) \<Rightarrow> (r, x\<lparr>res_ops := log\<rparr>)))))"

text \<open>
  \<open>next(error)\<close>: the function the middleware was handed is called with the value.
  Whether it throws is up to that function (\<open>nxt\<close> gives the value it throws, if
  any); the call is made either way, and a throw leaves the \<open>catch\<close> block.
\<close>

definition next_call ::
  "(thrown \<Rightarrow> thrown option) \<Rightarrow> thrown \<Rightarrow> exchange \<Rightarrow> (thrown + unit) \<times> exchange" where
  "next_call nxt error x =
     (case nxt error of
        Some e \<Rightarrow> (Inl e, x\<lparr>next_calls := next_calls x @ [error]\<rparr>)
      | None \<Rightarrow> (Inr (), x\<lparr>next_calls := next_calls x @ [error]\<rparr>))"

text \<open>
  The middleware: the \<open>try\<close> block, and \<open>catch (error) { next(error) }\<close>. The first
  component of the result is how the promise of the async function settles.
\<close>

definition createRequestHandler ::
  "node_lib \<Rightarrow> (host_request \<Rightarrow> host_op list \<Rightarrow> thrown + 'c) option \<Rightarrow>
   (node_request \<Rightarrow> 'c option \<Rightarrow> thrown + node_response) \<Rightarrow>
   host \<Rightarrow> (thrown \<Rightarrow> thrown option) \<Rightarrow> host_request \<Rightarrow> exchange \<Rightarrow>
   (thrown + unit) \<times> exchange" where
  "createRequestHandler lib getLoadContext handleRequest h nxt req x =
     (case try_block lib getLoadContext handleRequest h req x of
        (Inl error, x') \<Rightarrow> next_call nxt error x'
      | (Inr u, x') \<Rightarrow> (Inr u, x'))"

subsection \<open>Reading a run\<close>

text \<open>The values appended under one header name, in the order of the calls.\<close>

fun appended :: "string \<Rightarrow> host_op list \<Rightarrow> string list" where
  "appended name [] = []"
| "appended name (ResAppend key v # ops) =
     (if key = name then v # appended name ops else appended name ops)"
| "appended name (c # ops) = appended name ops"

text \<open>The values held under a name, \<open>headers.raw()[name]\<close>, none when the name is absent.\<close>

definition values_under :: "string \<Rightarrow> node_headers \<Rightarrow> string list" where
  "values_under name hs = (case map_of hs name of None \<Rightarrow> [] | Some vs \<Rightarrow> vs)"

text \<open>The calls that write body bytes, start the relay of a body or end the response.\<close>

fun is_body_op :: "host_op \<Rightarrow> bool" where
  "is_body_op (ResEnd b) = True"
| "is_body_op (PipeToRes s) = True"
| "is_body_op c = False"

text \<open>
  The fixed order of section 4.3 of the spec, in its words: (1) set the status code;
  (2) for every header name, append each of its values in original order; (3) the
  body: a buffer is one write that ends the response, a stream is relayed, no body
  ends the response at once. The spec names no other kind of body; for one the last
  call of the sequence is the one without bytes. (For a body whose \<open>pipe\<close> is not a
  function the sender never gets to that call; the theorems say so where it matters.)
\<close>

definition header_ops :: "node_headers \<Rightarrow> host_op list" where
  "header_ops hs = concat (map (\<lambda>(key, vals). map (ResAppend key) vals) hs)"

definition body_step :: "response_body \<Rightarrow> host_op" where
  "body_step b =
     (case b of
        BufferBody bs \<Rightarrow> ResEnd (Some bs)
      | StreamBody s \<Rightarrow> PipeToRes s
      | NoBody \<Rightarrow> ResEnd None
      | OtherBody v \<Rightarrow> ResEnd None
      | PipeValueBody v \<Rightarrow> ResEnd None)"

definition write_order :: "node_response \<Rightarrow> host_op list" where
  "write_order response =
     ResStatus (status response) # header_ops (headers_raw response) @ [body_step (body response)]"

text \<open>
  The host lets a sequence of calls through: none of them throws when they are made
  one after the other on a response that already has the calls of \<open>log\<close>.
\<close>

fun accepts :: "host \<Rightarrow> host_op list \<Rightarrow> host_op list \<Rightarrow> bool" where
  "accepts h log [] = True"
| "accepts h log (c # cs) = (h log c = None \<and> accepts h (log @ [c]) cs)"

text \<open>
  The name and value pairs that \<open>createRemixHeaders\<close> hands to the \<open>Headers\<close>
  container, in the order of the calls.
\<close>

fun header_pairs :: "host_headers \<Rightarrow> (string \<times> string) list" where
  "header_pairs [] = []"
| "header_pairs ((key, vals) # rest) =
     (case vals of
        Undefined \<Rightarrow> []
      | Single s \<Rightarrow> (if s = [] then [] else [(key, s)])
      | Multi vs \<Rightarrow> map (Pair key) vs) @ header_pairs rest"

subsection \<open>The relay of the request body\<close>

text \<open>
  Modelled from the spec: \<open>PassThrough\<close> and \<open>pipe\<close> of Node's stream library are not
  in the source file. Section 4.2 of the spec: the host request's body stream is "passed
  through a bounded-chunk relay (chunk size 16384 bytes) that performs no
  transformation of bytes"; section 5: a failure of the underlying stream is surfaced by
  the relay as a stream error. So the relay hands on the bytes of its source in their
  order, in chunks of at most the chunk size, and then ends or fails as its source
  does. \<open>observed\<close> is the stream that a reader of the request body sees,
  \<open>stream_bytes\<close> the bytes a stream delivers.
\<close>

fun rechunk :: "nat \<Rightarrow> 'a list \<Rightarrow> 'a list list" where
  "rechunk n [] = []"
| "rechunk n (b # bs) =
     (if n = 0 then [b # bs] else take n (b # bs) # rechunk n (drop n (b # bs)))"

definition relay :: "nat \<Rightarrow> readable \<Rightarrow> readable" where
  "relay n s = Readable (rechunk n (concat (chunks s))) (failure s)"

fun observed :: "request_body \<Rightarrow> readable" where
  "observed (PassThrough n s) = relay n s"

definition stream_bytes :: "readable \<Rightarrow> byte list" where
  "stream_bytes s = concat (chunks s)"

subsection \<open>Sample surroundings\<close>

text \<open>
  Instances of the parameters, for evaluating the adapter on concrete requests: a
  library that accepts every URL and header and one whose \<open>URL\<close> constructor throws;
  a host that accepts every call, and a host that behaves as \<open>res.append\<close> of Express
  does for \<open>Content-Type\<close>, which throws when the name already has a value
  ("Content-Type cannot be set to an Array"); a \<open>next\<close> that returns and one that
  throws; two requests; a missing and a throwing load-context callback; runtime
  handlers that resolve or reject; and responses of the runtime: with a Buffer, with
  two \<open>Content-Type\<close> values, with a body stream that delivers two chunks and then
  fails, with a body \<open>{ pipe: 1 }\<close>, and with a string as body.
\<close>

definition lenient_lib :: node_lib where
  "lenient_lib =
     \<lparr> new_URL = (\<lambda>input base. Inr (base @ input)), validate = (\<lambda>name v. None),
       new_Request = (\<lambda>request. None) \<rparr>"

definition rejecting_url :: node_lib where
  "rejecting_url =
     \<lparr> new_URL = (\<lambda>input base. Inl (Thrown ''Invalid URL'')), validate = (\<lambda>name v. None),
       new_Request = (\<lambda>request. None) \<rparr>"

definition accepting :: host where
  "accepting log c = None"

definition next_returns :: "thrown \<Rightarrow> thrown option" where
  "next_returns error = None"

definition next_throws :: "thrown \<Rightarrow> thrown option" where
  "next_throws error = Some (Thrown ''next failed'')"

definition single_content_type :: host where
  "single_content_type log c =
     (case c of
        ResAppend key v \<Rightarrow>
          (if key = ''content-type'' \<and> appended ''content-type'' log \<noteq> []
           then Some (Thrown ''Content-Type cannot be set to an Array'')
           else None)
      | _ \<Rightarrow> None)"

definition get_index :: host_request where
  "get_index =
     \<lparr> req_protocol = ''http'', req_host = Some ''localhost:3000'', req_url = ''/'',
       req_method = ''GET'',
       req_headers = [(''accept'', Multi [''text/html'', ''application/json''])],
       req_stream = Readable [[104, 105]] None \<rparr>"

definition post_form :: host_request where
  "post_form =
     \<lparr> req_protocol = ''https'', req_host = Some ''example.com'', req_url = ''/submit?x=1'',
       req_method = ''POST'',
       req_headers = [(''content-length'', Single ''2''), (''x-empty'', Single ''''),
                      (''set-cookie'', Multi [''a=1'', ''b=2''])],
       req_stream = Readable [[111, 107]] None \<rparr>"

definition no_callback :: "(host_request \<Rightarrow> host_op list \<Rightarrow> thrown + unit) option" where
  "no_callback = None"

definition callback_throws ::
  "thrown \<Rightarrow> (host_request \<Rightarrow> host_op list \<Rightarrow> thrown + unit) option" where
  "callback_throws e = Some (\<lambda>req log. Inl e)"

definition resolves_with ::
  "node_response \<Rightarrow> node_request \<Rightarrow> unit option \<Rightarrow> thrown + node_response" where
  "resolves_with response request c = Inr response"

definition rejects_with ::
  "thrown \<Rightarrow> node_request \<Rightarrow> unit option \<Rightarrow> thrown + node_response" where
  "rejects_with e request c = Inl e"

definition plain_ok :: node_response where
  "plain_ok =
     \<lparr> status = 200, headers_raw = [(''content-type'', [''text/plain''])],
       body = BufferBody [111, 107] \<rparr>"

definition two_content_types :: node_response where
  "two_content_types =
     \<lparr> status = 200,
       headers_raw = [(''content-type'', [''text/html'', ''text/plain''])],
       body = BufferBody [111, 107] \<rparr>"

definition failing_stream :: node_response where
  "failing_stream =
     \<lparr> status = 200, headers_raw = [(''content-type'', [''text/plain''])],
       body = StreamBody (Readable [[111], [107]] (Some (Thrown ''ECONNRESET''))) \<rparr>"

definition pipe_is_a_number :: node_response where
  "pipe_is_a_number =
     \<lparr> status = 200, headers_raw = [(''content-type'', [''text/plain''])],
       body = PipeValueBody ''{ pipe: 1 }'' \<rparr>"

definition string_body :: node_response where
  "string_body =
     \<lparr> status = 204, headers_raw = [(''x-a'', [''1''])], body = OtherBody ''ok'' \<rparr>"

section \<open>The Headers container\<close>

lemma map_of_headers_append:
  "map_of (headers_append name v hs) = (map_of hs)(name \<mapsto> values_under name hs @ [v])"
  by (induction hs) (auto simp: values_under_def fun_eq_iff)

lemma map_of_headers_set:
  "map_of (headers_set name v hs) = (map_of hs)(name \<mapsto> [v])"
  by (induction hs) (auto simp: fun_eq_iff)

lemma keys_headers_append:
  "map fst (headers_append name v hs) =
     (if name \<in> set (map fst hs) then map fst hs else map fst hs @ [name])"
proof (induction hs)
  case Nil
  show ?case by simp
next
  case (Cons entry hs)
  obtain n vs where entry: "entry = (n, vs)" by (cases entry)
  show ?case
  proof (cases "n = name")
    case True
    with entry show ?thesis by simp
  next
    case False
    with entry Cons.IH show ?thesis by simp
  qed
qed

lemma keys_headers_set:
  "map fst (headers_set name v hs) =
     (if name \<in> set (map fst hs) then map fst hs else map fst hs @ [name])"
proof (induction hs)
  case Nil
  show ?case by simp
next
  case (Cons entry hs)
  obtain n vs where entry: "entry = (n, vs)" by (cases entry)
  show ?case
  proof (cases "n = name")
    case True
    with entry show ?thesis by simp
  next
    case False
    with entry Cons.IH show ?thesis by simp
  qed
qed

lemma values_under_headers_append:
  "values_under n (headers_append name v hs) =
     (if n = name then values_under name hs @ [v] else values_under n hs)"
  by (simp add: values_under_def[of n] map_of_headers_append)

lemma values_under_headers_set:
  "values_under n (headers_set name v hs) = (if n = name then [v] else values_under n hs)"
  by (simp add: values_under_def[of n] map_of_headers_set)

lemma header_ops_Nil: "header_ops [] = []"
  by (simp add: header_ops_def)

lemma header_ops_Cons:
  "header_ops ((key, vals) # hs) = map (ResAppend key) vals @ header_ops hs"
  by (simp add: header_ops_def)

lemma lines_headers_append:
  "(n, vals) \<in> set (headers_append name v hs) \<Longrightarrow> x \<in> set vals \<Longrightarrow>
     (n = name \<and> x = v) \<or> (\<exists>old. (n, old) \<in> set hs \<and> x \<in> set old)"
proof (induction hs)
  case Nil
  then show ?case by simp
next
  case (Cons entry hs)
  obtain k vs where entry: "entry = (k, vs)" by (cases entry)
  show ?case
  proof (cases "k = name")
    case True
    with entry Cons.prems have "(n, vals) = (name, vs @ [v]) \<or> (n, vals) \<in> set hs" by simp
    then show ?thesis
    proof
      assume "(n, vals) = (name, vs @ [v])"
      with Cons.prems(2) have "n = name" "x \<in> set vs \<or> x = v" by auto
      with entry True show ?thesis by auto
    next
      assume "(n, vals) \<in> set hs"
      with Cons.prems(2) show ?thesis by auto
    qed
  next
    case False
    with entry Cons.prems have "(n, vals) = (k, vs) \<or> (n, vals) \<in> set (headers_append name v hs)"
      by simp
    then show ?thesis
    proof
      assume "(n, vals) = (k, vs)"
      with Cons.prems(2) entry show ?thesis by auto
    next
      assume "(n, vals) \<in> set (headers_append name v hs)"
      from Cons.IH[OF this Cons.prems(2)] show ?thesis by auto
    qed
  qed
qed

lemma lines_headers_set:
  "(n, vals) \<in> set (headers_set name v hs) \<Longrightarrow> x \<in> set vals \<Longrightarrow>
     (n = name \<and> x = v) \<or> (\<exists>old. (n, old) \<in> set hs \<and> x \<in> set old)"
proof (induction hs)
  case Nil
  then show ?case by simp
next
  case (Cons entry hs)
  obtain k vs where entry: "entry = (k, vs)" by (cases entry)
  show ?case
  proof (cases "k = name")
    case True
    with entry Cons.prems have "(n, vals) = (name, [v]) \<or> (n, vals) \<in> set hs" by simp
    then show ?thesis
    proof
      assume "(n, vals) = (name, [v])"
      with Cons.prems(2) show ?thesis by auto
    next
      assume "(n, vals) \<in> set hs"
      with Cons.prems(2) show ?thesis by auto
    qed
  next
    case False
    with entry Cons.prems have "(n, vals) = (k, vs) \<or> (n, vals) \<in> set (headers_set name v hs)"
      by simp
    then show ?thesis
    proof
      assume "(n, vals) = (k, vs)"
      with Cons.prems(2) entry show ?thesis by auto
    next
      assume "(n, vals) \<in> set (headers_set name v hs)"
      from Cons.IH[OF this Cons.prems(2)] show ?thesis by auto
    qed
  qed
qed

section \<open>createRemixHeaders\<close>

lemma node_append_Inr:
  "node_append lib name v hs = Inr hs' \<Longrightarrow> hs' = headers_append name v hs"
  by (auto simp: node_append_def split: option.splits)

lemma node_set_Inr:
  "node_set lib name v hs = Inr hs' \<Longrightarrow> hs' = headers_set name v hs"
  by (auto simp: node_set_def split: option.splits)

lemma append_each_values:
  "append_each lib key vs hs = Inr hs' \<Longrightarrow>
     values_under n hs' = (if n = key then values_under key hs @ vs else values_under n hs)"
proof (induction vs arbitrary: hs)
  case Nil
  then show ?case by simp
next
  case (Cons v vs)
  then obtain hs1 where s: "node_append lib key v hs = Inr hs1" "append_each lib key vs hs1 = Inr hs'"
    by (auto split: sum.splits)
  from node_append_Inr[OF s(1)] Cons.IH[OF s(2)] show ?case
    by (simp add: values_under_headers_append)
qed

lemma append_each_keys:
  "append_each lib key vs hs = Inr hs' \<Longrightarrow>
     map fst hs' = (if vs = [] \<or> key \<in> set (map fst hs) then map fst hs else map fst hs @ [key])"
proof (induction vs arbitrary: hs)
  case Nil
  then show ?case by simp
next
  case (Cons v vs)
  then obtain hs1 where s: "node_append lib key v hs = Inr hs1" "append_each lib key vs hs1 = Inr hs'"
    by (auto split: sum.splits)
  have k1: "map fst hs1 = (if key \<in> set (map fst hs) then map fst hs else map fst hs @ [key])"
    using node_append_Inr[OF s(1)] by (simp add: keys_headers_append)
  then have "key \<in> set (map fst hs1)"
    by (simp split: if_splits)
  with Cons.IH[OF s(2)] k1 show ?case by simp
qed

lemma append_each_lines:
  "append_each lib key vs hs = Inr hs' \<Longrightarrow> (n, vals) \<in> set hs' \<Longrightarrow> x \<in> set vals \<Longrightarrow>
     (n = key \<and> x \<in> set vs) \<or> (\<exists>old. (n, old) \<in> set hs \<and> x \<in> set old)"
proof (induction vs arbitrary: hs)
  case Nil
  then show ?case by auto
next
  case (Cons v vs)
  from Cons.prems(1) obtain hs1 where
    s: "node_append lib key v hs = Inr hs1" "append_each lib key vs hs1 = Inr hs'"
    by (auto split: sum.splits)
  from Cons.IH[OF s(2) Cons.prems(2,3)]
  show ?case
  proof
    assume "n = key \<and> x \<in> set vs"
    then show ?thesis by simp
  next
    assume "\<exists>old. (n, old) \<in> set hs1 \<and> x \<in> set old"
    then obtain old where "(n, old) \<in> set hs1" "x \<in> set old" by blast
    with node_append_Inr[OF s(1)] lines_headers_append[of n old key v hs x]
    show ?thesis by auto
  qed
qed

text \<open>One turn of the outer loop, read off a successful run.\<close>

lemma headers_loop_Cons_Inr:
  assumes "headers_loop lib ((key, vals) # rest) hs = Inr hs'"
  shows "\<exists>hs1. headers_loop lib rest hs1 = Inr hs' \<and>
           (case vals of
              Undefined \<Rightarrow> hs1 = hs
            | Single s \<Rightarrow> hs1 = (if s = [] then hs else headers_set key s hs)
            | Multi vs \<Rightarrow> append_each lib key vs hs = Inr hs1)"
proof (cases vals)
  case Undefined
  with assms show ?thesis by simp
next
  case (Single s)
  show ?thesis
  proof (cases "s = []")
    case True
    with Single assms show ?thesis by simp
  next
    case False
    with Single assms obtain hs1 where
      "node_set lib key s hs = Inr hs1" "headers_loop lib rest hs1 = Inr hs'"
      by (auto split: sum.splits)
    with Single False node_set_Inr show ?thesis by auto
  qed
next
  case (Multi vs)
  with assms obtain hs1 where
    "append_each lib key vs hs = Inr hs1" "headers_loop lib rest hs1 = Inr hs'"
    by (auto split: sum.splits)
  with Multi show ?thesis by auto
qed

lemma headers_loop_distinct:
  "headers_loop lib es hs = Inr hs' \<Longrightarrow> distinct (map fst hs) \<Longrightarrow> distinct (map fst hs')"
proof (induction es arbitrary: hs)
  case Nil
  then show ?case by simp
next
  case (Cons entry es)
  obtain key vals where entry: "entry = (key, vals)" by (cases entry)
  from headers_loop_Cons_Inr[OF Cons.prems(1)[unfolded entry]] obtain hs1 where
    s: "headers_loop lib es hs1 = Inr hs'" and
    step: "case vals of
             Undefined \<Rightarrow> hs1 = hs
           | Single s \<Rightarrow> hs1 = (if s = [] then hs else headers_set key s hs)
           | Multi vs \<Rightarrow> append_each lib key vs hs = Inr hs1"
    by blast
  have "distinct (map fst hs1)"
  proof (cases vals)
    case Undefined
    with step Cons.prems(2) show ?thesis by simp
  next
    case (Single v)
    with step Cons.prems(2) show ?thesis
      by (auto simp: keys_headers_set)
  next
    case (Multi vs)
    with step have "append_each lib key vs hs = Inr hs1" by simp
    from append_each_keys[OF this] Cons.prems(2) show ?thesis
      by (auto split: if_splits)
  qed
  with Cons.IH[OF s] show ?case .
qed

text \<open>A turn for one name leaves the values under every other name alone.\<close>

lemma turn_other_name:
  assumes "case vals of
             Undefined \<Rightarrow> hs1 = hs
           | Single s \<Rightarrow> hs1 = (if s = [] then hs else headers_set key s hs)
           | Multi vs \<Rightarrow> append_each lib key vs hs = Inr hs1"
    and "name \<noteq> key"
  shows "values_under name hs1 = values_under name hs"
proof (cases vals)
  case Undefined
  with assms show ?thesis by simp
next
  case (Single v)
  with assms show ?thesis by (simp add: values_under_headers_set)
next
  case (Multi vs)
  with assms(1) have "append_each lib key vs hs = Inr hs1" by simp
  from append_each_values[OF this, of name] assms(2) show ?thesis by simp
qed

lemma headers_loop_untouched:
  "headers_loop lib es hs = Inr hs' \<Longrightarrow> name \<notin> fst ` set es \<Longrightarrow>
     values_under name hs' = values_under name hs"
proof (induction es arbitrary: hs)
  case Nil
  then show ?case by simp
next
  case (Cons entry es)
  obtain key vals where entry: "entry = (key, vals)" by (cases entry)
  from headers_loop_Cons_Inr[OF Cons.prems(1)[unfolded entry]] obtain hs1 where
    s: "headers_loop lib es hs1 = Inr hs'" and
    step: "case vals of
             Undefined \<Rightarrow> hs1 = hs
           | Single s \<Rightarrow> hs1 = (if s = [] then hs else headers_set key s hs)
           | Multi vs \<Rightarrow> append_each lib key vs hs = Inr hs1"
    by blast
  from Cons.prems(2) entry have ne: "name \<noteq> key" "name \<notin> fst ` set es" by auto
  from turn_other_name[OF step ne(1)] Cons.IH[OF s ne(2)] show ?case by simp
qed

lemma headers_loop_multi:
  "headers_loop lib es hs = Inr hs' \<Longrightarrow> distinct (map fst es) \<Longrightarrow> (name, Multi vs) \<in> set es \<Longrightarrow>
     values_under name hs' = values_under name hs @ vs"
proof (induction es arbitrary: hs)
  case Nil
  then show ?case by simp
next
  case (Cons entry es)
  obtain key vals where entry: "entry = (key, vals)" by (cases entry)
  from headers_loop_Cons_Inr[OF Cons.prems(1)[unfolded entry]] obtain hs1 where
    s: "headers_loop lib es hs1 = Inr hs'" and
    step: "case vals of
             Undefined \<Rightarrow> hs1 = hs
           | Single s \<Rightarrow> hs1 = (if s = [] then hs else headers_set key s hs)
           | Multi vs \<Rightarrow> append_each lib key vs hs = Inr hs1"
    by blast
  from Cons.prems(2) entry have d: "key \<notin> fst ` set es" "distinct (map fst es)" by auto
  show ?case
  proof (cases "(name, Multi vs) = entry")
    case True
    with entry have eq: "key = name" "vals = Multi vs" by auto
    with step have "append_each lib name vs hs = Inr hs1" by simp
    from append_each_values[OF this, of name]
    have "values_under name hs1 = values_under name hs @ vs" by simp
    moreover from headers_loop_untouched[OF s, of name] d(1) eq(1)
    have "values_under name hs' = values_under name hs1" by simp
    ultimately show ?thesis by simp
  next
    case False
    with Cons.prems(3) have mem: "(name, Multi vs) \<in> set es" by auto
    with d(1) have ne: "name \<noteq> key" by force
    from turn_other_name[OF step ne] Cons.IH[OF s d(2) mem] show ?thesis by simp
  qed
qed

lemma headers_loop_keys:
  "headers_loop lib es hs = Inr hs' \<Longrightarrow> n \<in> set (map fst hs') \<Longrightarrow>
     n \<in> set (map fst hs) \<or> (\<exists>v. (n, v) \<in> set es \<and> truthy v)"
proof (induction es arbitrary: hs)
  case Nil
  then show ?case by simp
next
  case (Cons entry es)
  obtain key vals where entry: "entry = (key, vals)" by (cases entry)
  from headers_loop_Cons_Inr[OF Cons.prems(1)[unfolded entry]] obtain hs1 where
    s: "headers_loop lib es hs1 = Inr hs'" and
    step: "case vals of
             Undefined \<Rightarrow> hs1 = hs
           | Single s \<Rightarrow> hs1 = (if s = [] then hs else headers_set key s hs)
           | Multi vs \<Rightarrow> append_each lib key vs hs = Inr hs1"
    by blast
  have turn: "n \<in> set (map fst hs) \<or> (n = key \<and> truthy vals)" if "n \<in> set (map fst hs1)"
  proof (cases vals)
    case Undefined
    with step that show ?thesis by simp
  next
    case (Single v)
    with step that show ?thesis
      by (cases "v = []") (auto simp: keys_headers_set split: if_splits)
  next
    case (Multi vs)
    with step have "append_each lib key vs hs = Inr hs1" by simp
    from append_each_keys[OF this] that Multi show ?thesis
      by (auto split: if_splits)
  qed
  from Cons.IH[OF s Cons.prems(2)] show ?case
  proof
    assume "n \<in> set (map fst hs1)"
    from turn[OF this] entry show ?thesis by auto
  next
    assume "\<exists>v. (n, v) \<in> set es \<and> truthy v"
    then show ?thesis by auto
  qed
qed

lemma headers_loop_lines:
  "headers_loop lib es hs = Inr hs' \<Longrightarrow> (n, vals) \<in> set hs' \<Longrightarrow> x \<in> set vals \<Longrightarrow>
     (\<exists>old. (n, old) \<in> set hs \<and> x \<in> set old) \<or>
     (x \<noteq> [] \<and> (n, Single x) \<in> set es) \<or>
     (\<exists>ws. (n, Multi ws) \<in> set es \<and> x \<in> set ws)"
proof (induction es arbitrary: hs)
  case Nil
  then show ?case by auto
next
  case (Cons entry es)
  obtain key evals where entry: "entry = (key, evals)" by (cases entry)
  from headers_loop_Cons_Inr[OF Cons.prems(1)[unfolded entry]] obtain hs1 where
    s: "headers_loop lib es hs1 = Inr hs'" and
    step: "case evals of
             Undefined \<Rightarrow> hs1 = hs
           | Single s \<Rightarrow> hs1 = (if s = [] then hs else headers_set key s hs)
           | Multi vs \<Rightarrow> append_each lib key vs hs = Inr hs1"
    by blast
  have turn: "(\<exists>old. (n, old) \<in> set hs \<and> x \<in> set old) \<or>
      (x \<noteq> [] \<and> n = key \<and> evals = Single x) \<or>
      (\<exists>ws. n = key \<and> evals = Multi ws \<and> x \<in> set ws)"
    if a: "(n, old1) \<in> set hs1" "x \<in> set old1" for old1
  proof (cases evals)
    case Undefined
    with step a show ?thesis by auto
  next
    case (Single v)
    show ?thesis
    proof (cases "v = []")
      case True
      with Single step a show ?thesis by auto
    next
      case False
      with Single step have "hs1 = headers_set key v hs" by simp
      with a lines_headers_set[of n old1 key v hs x] Single False show ?thesis by auto
    qed
  next
    case (Multi ws)
    with step have "append_each lib key ws hs = Inr hs1" by simp
    from append_each_lines[OF this a] Multi show ?thesis by auto
  qed
  from Cons.IH[OF s Cons.prems(2,3)] show ?case
  proof (elim disjE exE conjE)
    fix old1 assume "(n, old1) \<in> set hs1" "x \<in> set old1"
    from turn[OF this] entry show ?thesis by auto
  next
    assume "x \<noteq> []" "(n, Single x) \<in> set es"
    then show ?thesis by auto
  next
    fix ws assume "(n, Multi ws) \<in> set es" "x \<in> set ws"
    then show ?thesis by auto
  qed
qed

lemma headers_loop_skip:
  "\<not> truthy v \<Longrightarrow> headers_loop lib (xs @ (name, v) # ys) hs = headers_loop lib (xs @ ys) hs"
proof (induction xs arbitrary: hs)
  case Nil
  then show ?case by simp
next
  case (Cons entry xs)
  obtain key vals where entry: "entry = (key, vals)" by (cases entry)
  from Cons show ?case
    by (simp add: entry split: sum.splits header_value.splits)
qed

text \<open>When the container accepts every pair handed to it, the translation returns.\<close>

lemma append_each_returns:
  "\<forall>v \<in> set vs. validate lib key v = None \<Longrightarrow> \<exists>hs'. append_each lib key vs hs = Inr hs'"
  by (induction vs arbitrary: hs) (simp_all add: node_append_def)

lemma headers_loop_returns:
  "\<forall>(n, v) \<in> set (header_pairs es). validate lib n v = None \<Longrightarrow>
     \<exists>hs'. headers_loop lib es hs = Inr hs'"
proof (induction es arbitrary: hs)
  case Nil
  then show ?case by simp
next
  case (Cons entry es)
  obtain key vals where entry: "entry = (key, vals)" by (cases entry)
  from Cons.prems entry have rest: "\<forall>(n, v) \<in> set (header_pairs es). validate lib n v = None"
    by auto
  show ?case
  proof (cases vals)
    case Undefined
    with entry Cons.IH[OF rest] show ?thesis by simp
  next
    case (Single s)
    show ?thesis
    proof (cases "s = []")
      case True
      with Single entry Cons.IH[OF rest] show ?thesis by simp
    next
      case False
      with Single entry Cons.prems have "validate lib key s = None" by simp
      with Single False entry Cons.IH[OF rest, of "headers_set key s hs"] show ?thesis
        by (simp add: node_set_def)
    qed
  next
    case (Multi vs)
    with entry Cons.prems have "\<forall>v \<in> set vs. validate lib key v = None" by auto
    from append_each_returns[OF this, of hs] obtain hs1 where
      "append_each lib key vs hs = Inr hs1" by blast
    with Multi entry Cons.IH[OF rest, of hs1] show ?thesis by simp
  qed
qed

section \<open>sendRemixResponse\<close>

lemma res_call_cases:
  "res_call h c log = (r, log') \<Longrightarrow>
     (r = Inr () \<and> log' = log @ [c]) \<or> ((\<exists>e. r = Inl e) \<and> log' = log)"
  by (auto simp: res_call_def split: option.splits)

lemma append_values_run:
  "append_values h key vs log = (r, log') \<Longrightarrow>
     \<exists>d. log' = log @ d \<and> prefix d (map (ResAppend key) vs) \<and>
         (r = Inr () \<longleftrightarrow> d = map (ResAppend key) vs)"
proof (induction vs arbitrary: log)
  case Nil
  then show ?case by auto
next
  case (Cons v vs)
  obtain r1 log1 where c: "res_call h (ResAppend key v) log = (r1, log1)"
    by (cases "res_call h (ResAppend key v) log")
  from res_call_cases[OF c] show ?case
  proof
    assume ok: "r1 = Inr () \<and> log1 = log @ [ResAppend key v]"
    with Cons.prems c have "append_values h key vs (log @ [ResAppend key v]) = (r, log')"
      by simp
    from Cons.IH[OF this] obtain d where
      d: "log' = (log @ [ResAppend key v]) @ d" "prefix d (map (ResAppend key) vs)"
         "r = Inr () \<longleftrightarrow> d = map (ResAppend key) vs"
      by blast
    show ?thesis
      by (rule exI[of _ "ResAppend key v # d"]) (use d in simp)
  next
    assume bad: "(\<exists>e. r1 = Inl e) \<and> log1 = log"
    with Cons.prems c have "r = r1" "log' = log" by auto
    with bad show ?thesis by (intro exI[of _ "[]"]) auto
  qed
qed

lemma append_entries_run:
  "append_entries h hs log = (r, log') \<Longrightarrow>
     \<exists>d. log' = log @ d \<and> prefix d (header_ops hs) \<and> (r = Inr () \<longleftrightarrow> d = header_ops hs)"
proof (induction hs arbitrary: log)
  case Nil
  then show ?case by (auto simp: header_ops_def)
next
  case (Cons entry hs)
  obtain key vals where entry: "entry = (key, vals)" by (cases entry)
  have unfold: "header_ops (entry # hs) = map (ResAppend key) vals @ header_ops hs"
    by (simp add: header_ops_def entry)
  obtain r1 log1 where c: "append_values h key vals log = (r1, log1)"
    by (cases "append_values h key vals log")
  from append_values_run[OF c] obtain d1 where
    d1: "log1 = log @ d1" "prefix d1 (map (ResAppend key) vals)"
        "r1 = Inr () \<longleftrightarrow> d1 = map (ResAppend key) vals"
    by blast
  show ?case
  proof (cases r1)
    case (Inl e)
    with Cons.prems c entry have res: "r = Inl e" "log' = log1" by auto
    from Inl d1 have "d1 \<noteq> map (ResAppend key) vals" by simp
    with d1(2) have "strict_prefix d1 (map (ResAppend key) vals)" by (simp add: strict_prefix_def)
    then have "strict_prefix d1 (header_ops (entry # hs))"
      unfolding unfold by (meson prefix_append prefix_order.less_le_trans prefix_order.order_refl)
    with res d1(1) show ?thesis
      by (intro exI[of _ d1]) (auto simp: strict_prefix_def)
  next
    case (Inr u)
    with Cons.prems c entry have "append_entries h hs log1 = (r, log')" by auto
    from Cons.IH[OF this] obtain d where
      d: "log' = log1 @ d" "prefix d (header_ops hs)" "r = Inr () \<longleftrightarrow> d = header_ops hs"
      by blast
    from Inr d1 have full: "d1 = map (ResAppend key) vals" by simp
    show ?thesis
      unfolding unfold by (rule exI[of _ "d1 @ d"]) (use d d1(1) full in simp)
  qed
qed

lemma sendRemixResponse_run:
  "sendRemixResponse h response log = (r, log') \<Longrightarrow>
     \<exists>d. log' = log @ d \<and> prefix d (write_order response) \<and>
         (r = Inr () \<longleftrightarrow> d = write_order response)"
proof -
  assume run: "sendRemixResponse h response log = (r, log')"
  obtain r1 log1 where c1: "res_call h (ResStatus (status response)) log = (r1, log1)"
    by (cases "res_call h (ResStatus (status response)) log")
  from res_call_cases[OF c1] show ?thesis
  proof
    assume bad: "(\<exists>e. r1 = Inl e) \<and> log1 = log"
    with run c1 have "r = r1" "log' = log" by (auto simp: sendRemixResponse_def)
    with bad show ?thesis by (intro exI[of _ "[]"]) (auto simp: write_order_def)
  next
    assume ok: "r1 = Inr () \<and> log1 = log @ [ResStatus (status response)]"
    obtain r2 log2 where c2: "append_entries h (headers_raw response) log1 = (r2, log2)"
      by (cases "append_entries h (headers_raw response) log1")
    from append_entries_run[OF c2] obtain d2 where
      d2: "log2 = log1 @ d2" "prefix d2 (header_ops (headers_raw response))"
          "r2 = Inr () \<longleftrightarrow> d2 = header_ops (headers_raw response)"
      by blast
    show ?thesis
    proof (cases r2)
      case (Inl e)
      with run c1 c2 ok have res: "r = Inl e" "log' = log2" by (auto simp: sendRemixResponse_def)
      from Inl d2 have "strict_prefix d2 (header_ops (headers_raw response))"
        by (simp add: strict_prefix_def)
      then have "strict_prefix (ResStatus (status response) # d2) (write_order response)"
        unfolding write_order_def
        by (metis Cons_prefix_Cons prefix_append prefix_order.less_le_trans prefix_order.order_refl strict_prefix_simps(3))
      with res d2(1) ok show ?thesis
        by (intro exI[of _ "ResStatus (status response) # d2"]) (auto simp: strict_prefix_def)
    next
      case (Inr u)
      with d2 have full: "d2 = header_ops (headers_raw response)" by simp
      have last: "(r = Inr () \<and> log' = log2 @ [body_step (body response)]) \<or>
          ((\<exists>e. r = Inl e) \<and> log' = log2)"
      proof (cases "\<exists>v. body response = PipeValueBody v")
        case True
        with run c1 c2 ok Inr show ?thesis by (auto simp: sendRemixResponse_def)
      next
        case False
        with run c1 c2 ok Inr have c3: "res_call h (body_step (body response)) log2 = (r, log')"
          by (auto simp: sendRemixResponse_def body_step_def split: response_body.splits)
        from res_call_cases[OF c3] show ?thesis .
      qed
      then show ?thesis
      proof
        assume "r = Inr () \<and> log' = log2 @ [body_step (body response)]"
        with d2(1) ok full show ?thesis
          by (intro exI[of _ "write_order response"]) (simp add: write_order_def)
      next
        assume "(\<exists>e. r = Inl e) \<and> log' = log2"
        with d2(1) ok full show ?thesis
          by (intro exI[of _ "ResStatus (status response) # d2"]) (auto simp: write_order_def)
      qed
    qed
  qed
qed


lemma appended_append: "appended name (xs @ ys) = appended name xs @ appended name ys"
  by (induction name xs rule: appended.induct) auto

lemma appended_map_ResAppend:
  "appended name (map (ResAppend key) vs) = (if key = name then vs else [])"
  by (induction vs) auto

lemma appended_header_ops:
  "distinct (map fst hs) \<Longrightarrow> appended name (header_ops hs) = values_under name hs"
proof (induction hs)
  case Nil
  then show ?case by (simp add: header_ops_Nil values_under_def)
next
  case (Cons entry hs)
  obtain key vals where entry: "entry = (key, vals)" by (cases entry)
  from Cons entry have IH: "appended name (header_ops hs) = values_under name hs"
    and fresh_key: "key \<notin> set (map fst hs)" by auto
  show ?case
  proof (cases "key = name")
    case True
    with fresh_key have "map_of hs name = None"
      by (simp add: map_of_eq_None_iff)
    with IH True entry show ?thesis
      by (simp add: header_ops_Cons appended_append appended_map_ResAppend values_under_def)
  next
    case False
    with IH entry show ?thesis
      by (simp add: header_ops_Cons appended_append appended_map_ResAppend values_under_def)
  qed
qed

lemma no_body_op_in_header_ops: "filter is_body_op (header_ops hs) = []"
  by (induction hs) (auto simp: header_ops_Nil header_ops_Cons filter_empty_conv)

lemma sendRemixResponse_returns:
  assumes "sendRemixResponse h response log = (Inr (), log')"
  shows "log' = log @ write_order response"
  using sendRemixResponse_run[OF assms] by auto

text \<open>
  A body whose \<open>pipe\<close> is not a function: the sender throws once the status and the
  headers are through, and makes no body call.
\<close>

lemma sendRemixResponse_pipe_value:
  assumes "body response = PipeValueBody v"
    and "sendRemixResponse h response log = (r, log')"
  shows "(\<exists>e. r = Inl e) \<and>
         (\<exists>d. log' = log @ d \<and>
            prefix d (ResStatus (status response) # header_ops (headers_raw response)))"
proof -
  obtain r1 log1 where c1: "res_call h (ResStatus (status response)) log = (r1, log1)"
    by (cases "res_call h (ResStatus (status response)) log")
  from res_call_cases[OF c1] show ?thesis
  proof
    assume "(\<exists>e. r1 = Inl e) \<and> log1 = log"
    with assms(2) c1 show ?thesis by (auto simp: sendRemixResponse_def)
  next
    assume ok: "r1 = Inr () \<and> log1 = log @ [ResStatus (status response)]"
    obtain r2 log2 where c2: "append_entries h (headers_raw response) log1 = (r2, log2)"
      by (cases "append_entries h (headers_raw response) log1")
    from append_entries_run[OF c2] obtain d2 where
      d2: "log2 = log1 @ d2" "prefix d2 (header_ops (headers_raw response))"
      by blast
    from assms c1 c2 ok have "(\<exists>e. r = Inl e) \<and> log' = log2"
      by (cases r2) (auto simp: sendRemixResponse_def)
    with d2 ok show ?thesis
      by (intro conjI exI[of _ "ResStatus (status response) # d2"]) auto
  qed
qed

text \<open>When the host lets the calls of the sequence through, the sender makes them all.\<close>

lemma accepts_append:
  "accepts h log (xs @ ys) \<longleftrightarrow> accepts h log xs \<and> accepts h (log @ xs) ys"
  by (induction xs arbitrary: log) auto

lemma all_accepts: "\<forall>l c. h l c = None \<Longrightarrow> accepts h log cs"
  by (induction cs arbitrary: log) auto

lemma res_call_accepts:
  "accepts h log [c] \<Longrightarrow> res_call h c log = (Inr (), log @ [c])"
  by (simp add: res_call_def)

lemma append_values_accepts:
  "accepts h log (map (ResAppend key) vs) \<Longrightarrow>
     append_values h key vs log = (Inr (), log @ map (ResAppend key) vs)"
  by (induction vs arbitrary: log) (simp_all add: res_call_def)

lemma append_entries_accepts:
  "accepts h log (header_ops hs) \<Longrightarrow> append_entries h hs log = (Inr (), log @ header_ops hs)"
proof (induction hs arbitrary: log)
  case Nil
  then show ?case by (simp add: header_ops_Nil)
next
  case (Cons entry hs)
  obtain key vals where entry: "entry = (key, vals)" by (cases entry)
  from Cons.prems entry have
    a: "accepts h log (map (ResAppend key) vals)"
       "accepts h (log @ map (ResAppend key) vals) (header_ops hs)"
    by (simp_all add: header_ops_Cons accepts_append)
  from append_values_accepts[OF a(1)] Cons.IH[OF a(2)] entry show ?case
    by (simp add: header_ops_Cons)
qed

lemma sendRemixResponse_accepts:
  assumes "accepts h log (write_order response)"
    and "\<forall>v. body response \<noteq> PipeValueBody v"
  shows "sendRemixResponse h response log = (Inr (), log @ write_order response)"
proof -
  let ?s = "ResStatus (status response)"
  from assms(1) have
    a: "h log ?s = None"
       "accepts h (log @ [?s]) (header_ops (headers_raw response))"
       "accepts h (log @ ?s # header_ops (headers_raw response)) [body_step (body response)]"
    by (simp_all add: write_order_def accepts_append)
  from a(1) have s1: "res_call h ?s log = (Inr (), log @ [?s])"
    by (simp add: res_call_def)
  note s2 = append_entries_accepts[OF a(2)]
  from a(3) have s3:
    "res_call h (body_step (body response)) (log @ ?s # header_ops (headers_raw response)) =
       (Inr (), log @ ?s # header_ops (headers_raw response) @ [body_step (body response)])"
    by (simp add: res_call_def)
  from assms(2) s1 s2 s3 show ?thesis
    by (cases "body response") (simp_all add: sendRemixResponse_def write_order_def body_step_def)
qed

lemma sendRemixResponse_accepted:
  assumes "\<forall>l c. h l c = None"
    and "\<forall>v. body response \<noteq> PipeValueBody v"
  shows "sendRemixResponse h response log = (Inr (), log @ write_order response)"
  using sendRemixResponse_accepts[OF all_accepts[OF assms(1)] assms(2)] .

text \<open>In any run the values appended under a name are an initial part of the ones held.\<close>

lemma appended_prefix: "prefix xs ys \<Longrightarrow> prefix (appended name xs) (appended name ys)"
  by (auto simp: prefix_def appended_append)

section \<open>The translations\<close>

lemma createRemixRequest_returns:
  assumes "new_URL lib (req_url req)
             (req_protocol req @ ''://'' @
                (case req_host req of None \<Rightarrow> ''undefined'' | Some h \<Rightarrow> h)) = Inr u"
    and "createRemixHeaders lib (req_headers req) = Inr hs"
    and "new_Request lib
           \<lparr> request_url = u, init_method = req_method req, init_headers = hs,
             init_body = (if req_method req \<noteq> ''GET'' \<and> req_method req \<noteq> ''HEAD''
                          then Some (PassThrough 16384 (req_stream req)) else None) \<rparr> = None"
  shows "createRemixRequest lib req =
           Inr \<lparr> request_url = u, init_method = req_method req, init_headers = hs,
                 init_body = (if req_method req \<noteq> ''GET'' \<and> req_method req \<noteq> ''HEAD''
                              then Some (PassThrough 16384 (req_stream req)) else None) \<rparr>"
  using assms by (simp add: createRemixRequest_def Let_def)

text \<open>
  C2. For a host request whose method is GET or HEAD, the request built by
  \<open>createRemixRequest\<close> has no body, whatever stream the host request carries.
\<close>

theorem get_head_no_body:
  "req_method req = ''GET'' \<or> req_method req = ''HEAD'' \<Longrightarrow>
   createRemixRequest lib req = Inr request \<Longrightarrow> init_body request = None"
  by (auto simp: createRemixRequest_def Let_def split: sum.splits option.splits)

theorem get_head_no_body_witness:
  "(req_method get_index = ''GET'' \<or> req_method get_index = ''HEAD'') \<and>
   req_stream get_index = Readable [[104, 105]] None \<and>
   createRemixRequest lenient_lib get_index =
     Inr \<lparr> request_url = ''http://localhost:3000/'', init_method = ''GET'',
           init_headers = [(''accept'', [''text/html'', ''application/json''])],
           init_body = None \<rparr> \<and>
   init_body \<lparr> request_url = ''http://localhost:3000/'', init_method = ''GET'',
           init_headers = [(''accept'', [''text/html'', ''application/json''])],
           init_body = None \<rparr> = None"
  using get_head_no_body [of get_index lenient_lib
      "\<lparr> request_url = ''http://localhost:3000/'', init_method = ''GET'',
         init_headers = [(''accept'', [''text/html'', ''application/json''])],
         init_body = None \<rparr>"]
  by (simp add: get_index_def lenient_lib_def createRemixRequest_def createRemixHeaders_def
      node_append_def)

text \<open>The relay hands on every byte, in order, in chunks no longer than its chunk size.\<close>

lemma concat_rechunk: "concat (rechunk n bs) = bs"
  by (induction n bs rule: rechunk.induct) simp_all

lemma rechunk_bound: "n \<noteq> 0 \<Longrightarrow> c \<in> set (rechunk n bs) \<Longrightarrow> c \<noteq> [] \<and> length c \<le> n"
  by (induction n bs rule: rechunk.induct) auto

text \<open>
  C8. For a host request whose method is neither GET nor HEAD, the body of the request
  built by \<open>createRemixRequest\<close> is the relay with chunk size 16384 fed from the host
  request's stream. The bytes seen on it are the bytes of the host request's body, all
  of them and in their order, in non-empty chunks of at most 16384 bytes, and it ends or
  fails as the host request's stream does. The request is built whenever the \<open>URL\<close>,
  \<open>Headers\<close> and \<open>NodeRequest\<close> constructors return.
\<close>

theorem request_body_relayed:
  assumes "req_method req \<noteq> ''GET''" and "req_method req \<noteq> ''HEAD''"
  shows "(createRemixRequest lib req = Inr request \<longrightarrow>
            (\<exists>b. init_body request = Some b \<and> b = PassThrough 16384 (req_stream req) \<and>
                 stream_bytes (observed b) = stream_bytes (req_stream req) \<and>
                 (\<forall>c \<in> set (chunks (observed b)). c \<noteq> [] \<and> length c \<le> 16384) \<and>
                 failure (observed b) = failure (req_stream req))) \<and>
         (new_URL lib (req_url req)
            (req_protocol req @ ''://'' @
               (case req_host req of None \<Rightarrow> ''undefined'' | Some h \<Rightarrow> h)) = Inr u \<and>
          createRemixHeaders lib (req_headers req) = Inr hs \<and>
          new_Request lib
            \<lparr> request_url = u, init_method = req_method req, init_headers = hs,
              init_body = Some (PassThrough 16384 (req_stream req)) \<rparr> = None \<longrightarrow>
            createRemixRequest lib req =
              Inr \<lparr> request_url = u, init_method = req_method req, init_headers = hs,
                    init_body = Some (PassThrough 16384 (req_stream req)) \<rparr>)"
proof -
  let ?b = "PassThrough 16384 (req_stream req)"
  have bytes: "stream_bytes (observed ?b) = stream_bytes (req_stream req)"
    by (simp add: stream_bytes_def relay_def concat_rechunk)
  have bound: "\<forall>c \<in> set (chunks (observed ?b)). c \<noteq> [] \<and> length c \<le> 16384"
    using rechunk_bound[of 16384] by (auto simp: relay_def)
  have fails: "failure (observed ?b) = failure (req_stream req)"
    by (simp add: relay_def)
  have built: "init_body request = Some ?b" if "createRemixRequest lib req = Inr request"
    using that assms
    by (auto simp: createRemixRequest_def Let_def split: sum.splits option.splits)
  have returns: "createRemixRequest lib req =
      Inr \<lparr> request_url = u, init_method = req_method req, init_headers = hs,
            init_body = Some ?b \<rparr>"
    if "new_URL lib (req_url req)
            (req_protocol req @ ''://'' @
               (case req_host req of None \<Rightarrow> ''undefined'' | Some h \<Rightarrow> h)) = Inr u \<and>
        createRemixHeaders lib (req_headers req) = Inr hs \<and>
        new_Request lib
            \<lparr> request_url = u, init_method = req_method req, init_headers = hs,
              init_body = Some ?b \<rparr> = None"
    using createRemixRequest_returns[of lib req u hs] that assms by simp
  from bytes bound fails built returns show ?thesis by blast
qed

theorem request_body_relayed_witness:
  "req_method post_form \<noteq> ''GET'' \<and> req_method post_form \<noteq> ''HEAD'' \<and>
   req_stream post_form = Readable [[111, 107]] None \<and>
   createRemixRequest lenient_lib post_form =
     Inr \<lparr> request_url = ''https://example.com/submit?x=1'', init_method = ''POST'',
           init_headers = [(''content-length'', [''2'']), (''set-cookie'', [''a=1'', ''b=2''])],
           init_body = Some (PassThrough 16384 (Readable [[111, 107]] None)) \<rparr> \<and>
   stream_bytes (observed (PassThrough 16384 (Readable [[111, 107]] None))) = [111, 107] \<and>
   stream_bytes (req_stream post_form) = [111, 107]"
  using request_body_relayed [of post_form lenient_lib
      "\<lparr> request_url = ''https://example.com/submit?x=1'', init_method = ''POST'',
         init_headers = [(''content-length'', [''2'']), (''set-cookie'', [''a=1'', ''b=2''])],
         init_body = Some (PassThrough 16384 (Readable [[111, 107]] None)) \<rparr>"
      "''https://example.com/submit?x=1''"
      "[(''content-length'', [''2'']), (''set-cookie'', [''a=1'', ''b=2''])]"]
  by (simp add: post_form_def lenient_lib_def createRemixRequest_def createRemixHeaders_def
      node_append_def node_set_def stream_bytes_def relay_def)

text \<open>
  C3, as the code has it. Take a host header collection with distinct names (the keys
  of a JavaScript object) and a list-valued entry in it. When the \<open>Headers\<close> container
  accepts every pair handed to it, \<open>createRemixHeaders\<close> returns a header set that
  holds the same list under the name. When the host lets the calls of the sender
  through, \<open>sendRemixResponse\<close> returns and has appended under the name the same
  list, in order, after whatever had been appended there before. Whatever the host
  does, the values appended under the name are an initial part of the list.
\<close>

theorem header_round_trip:
  assumes "distinct (map fst hs)"
    and "(name, Multi vs) \<in> set hs"
    and "\<forall>(n, v) \<in> set (header_pairs hs). validate lib n v = None"
  shows "(\<exists>held. createRemixHeaders lib hs = Inr held) \<and>
         (createRemixHeaders lib hs = Inr (headers_raw response) \<longrightarrow>
            values_under name (headers_raw response) = vs \<and>
            ((\<forall>v. body response \<noteq> PipeValueBody v) \<and> accepts h log (write_order response) \<longrightarrow>
               sendRemixResponse h response log = (Inr (), log @ write_order response) \<and>
               appended name (log @ write_order response) = appended name log @ vs) \<and>
            (sendRemixResponse h response log = (r, log') \<longrightarrow>
               (\<exists>got. appended name log' = appended name log @ got \<and> prefix got vs \<and>
                      (r = Inr () \<longrightarrow> got = vs))))"
proof -
  from headers_loop_returns[OF assms(3), of "[]"]
  have returns: "\<exists>held. createRemixHeaders lib hs = Inr held"
    by (simp add: createRemixHeaders_def)
  have round: "values_under name (headers_raw response) = vs \<and>
      ((\<forall>v. body response \<noteq> PipeValueBody v) \<and> accepts h log (write_order response) \<longrightarrow>
         sendRemixResponse h response log = (Inr (), log @ write_order response) \<and>
         appended name (log @ write_order response) = appended name log @ vs) \<and>
      (sendRemixResponse h response log = (r, log') \<longrightarrow>
         (\<exists>got. appended name log' = appended name log @ got \<and> prefix got vs \<and>
                (r = Inr () \<longrightarrow> got = vs)))"
    if built: "createRemixHeaders lib hs = Inr (headers_raw response)"
  proof -
    from built have loop: "headers_loop lib hs [] = Inr (headers_raw response)"
      by (simp add: createRemixHeaders_def)
    from headers_loop_multi[OF loop assms(1,2)]
    have holds: "values_under name (headers_raw response) = vs"
      by (simp add: values_under_def)
    from headers_loop_distinct[OF loop] have "distinct (map fst (headers_raw response))"
      by simp
    then have "appended name (header_ops (headers_raw response)) = vs"
      using holds by (simp add: appended_header_ops)
    then have whole: "appended name (write_order response) = vs"
      by (cases "body response") (simp_all add: write_order_def body_step_def appended_append)
    have sent: "sendRemixResponse h response log = (Inr (), log @ write_order response) \<and>
        appended name (log @ write_order response) = appended name log @ vs"
      if "(\<forall>v. body response \<noteq> PipeValueBody v) \<and> accepts h log (write_order response)"
      using sendRemixResponse_accepts[of h log response] whole that
      by (simp add: appended_append)
    have part: "\<exists>got. appended name log' = appended name log @ got \<and> prefix got vs \<and>
        (r = Inr () \<longrightarrow> got = vs)"
      if run: "sendRemixResponse h response log = (r, log')"
    proof -
      from sendRemixResponse_run[OF run] obtain d where
        d: "log' = log @ d" "prefix d (write_order response)"
           "r = Inr () \<longleftrightarrow> d = write_order response"
        by blast
      from appended_prefix[OF d(2), of name] whole
      have "prefix (appended name d) vs" by simp
      moreover from d(3) whole have "r = Inr () \<longrightarrow> appended name d = vs"
        by auto
      ultimately show ?thesis using d(1)
        by (intro exI[of _ "appended name d"]) (simp add: appended_append)
    qed
    from holds sent part show ?thesis by blast
  qed
  from returns round show ?thesis by blast
qed

theorem header_round_trip_witness:
  "(distinct (map fst (req_headers post_form)) \<and>
    (''set-cookie'', Multi [''a=1'', ''b=2'']) \<in> set (req_headers post_form) \<and>
    list_all (\<lambda>(n, v). validate lenient_lib n v = None) (header_pairs (req_headers post_form)) \<and>
    createRemixHeaders lenient_lib (req_headers post_form) =
      Inr [(''content-length'', [''2'']), (''set-cookie'', [''a=1'', ''b=2''])] \<and>
    accepts accepting []
      [ResStatus 200, ResAppend ''content-length'' ''2'',
       ResAppend ''set-cookie'' ''a=1'', ResAppend ''set-cookie'' ''b=2'', ResEnd None] \<and>
    sendRemixResponse accepting
      \<lparr> status = 200,
        headers_raw = [(''content-length'', [''2'']), (''set-cookie'', [''a=1'', ''b=2''])],
        body = NoBody \<rparr> [] =
      (Inr (), [ResStatus 200, ResAppend ''content-length'' ''2'',
                ResAppend ''set-cookie'' ''a=1'', ResAppend ''set-cookie'' ''b=2'', ResEnd None]) \<and>
    appended ''set-cookie''
      [ResStatus 200, ResAppend ''content-length'' ''2'',
       ResAppend ''set-cookie'' ''a=1'', ResAppend ''set-cookie'' ''b=2'', ResEnd None] =
      [''a=1'', ''b=2'']) \<and>
   (createRemixHeaders lenient_lib [(''content-type'', Multi [''text/html'', ''text/plain''])] =
      Inr (headers_raw two_content_types) \<and>
    sendRemixResponse single_content_type two_content_types [] =
      (Inl (Thrown ''Content-Type cannot be set to an Array''),
       [ResStatus 200, ResAppend ''content-type'' ''text/html'']) \<and>
    prefix (appended ''content-type'' [ResStatus 200, ResAppend ''content-type'' ''text/html''])
      [''text/html'', ''text/plain''])"
proof -
  have whole: "distinct (map fst (req_headers post_form)) \<and>
    (''set-cookie'', Multi [''a=1'', ''b=2'']) \<in> set (req_headers post_form) \<and>
    list_all (\<lambda>(n, v). validate lenient_lib n v = None) (header_pairs (req_headers post_form)) \<and>
    createRemixHeaders lenient_lib (req_headers post_form) =
      Inr [(''content-length'', [''2'']), (''set-cookie'', [''a=1'', ''b=2''])] \<and>
    accepts accepting []
      [ResStatus 200, ResAppend ''content-length'' ''2'',
       ResAppend ''set-cookie'' ''a=1'', ResAppend ''set-cookie'' ''b=2'', ResEnd None] \<and>
    sendRemixResponse accepting
      \<lparr> status = 200,
        headers_raw = [(''content-length'', [''2'']), (''set-cookie'', [''a=1'', ''b=2''])],
        body = NoBody \<rparr> [] =
      (Inr (), [ResStatus 200, ResAppend ''content-length'' ''2'',
                ResAppend ''set-cookie'' ''a=1'', ResAppend ''set-cookie'' ''b=2'', ResEnd None]) \<and>
    appended ''set-cookie''
      [ResStatus 200, ResAppend ''content-length'' ''2'',
       ResAppend ''set-cookie'' ''a=1'', ResAppend ''set-cookie'' ''b=2'', ResEnd None] =
      [''a=1'', ''b=2'']"
    using header_round_trip [of "req_headers post_form" "''set-cookie''" "[''a=1'', ''b=2'']"
        lenient_lib
        "\<lparr> status = 200,
           headers_raw = [(''content-length'', [''2'']), (''set-cookie'', [''a=1'', ''b=2''])],
           body = NoBody \<rparr>"
        accepting "[]" "Inr ()"
        "[ResStatus 200, ResAppend ''content-length'' ''2'',
          ResAppend ''set-cookie'' ''a=1'', ResAppend ''set-cookie'' ''b=2'', ResEnd None]"]
    by (simp add: post_form_def lenient_lib_def accepting_def createRemixHeaders_def
        node_append_def node_set_def sendRemixResponse_def res_call_def)
  have cut: "createRemixHeaders lenient_lib [(''content-type'', Multi [''text/html'', ''text/plain''])] =
      Inr (headers_raw two_content_types) \<and>
    sendRemixResponse single_content_type two_content_types [] =
      (Inl (Thrown ''Content-Type cannot be set to an Array''),
       [ResStatus 200, ResAppend ''content-type'' ''text/html'']) \<and>
    prefix (appended ''content-type'' [ResStatus 200, ResAppend ''content-type'' ''text/html''])
      [''text/html'', ''text/plain'']"
    using header_round_trip [of "[(''content-type'', Multi [''text/html'', ''text/plain''])]"
        "''content-type''" "[''text/html'', ''text/plain'']" lenient_lib two_content_types
        single_content_type "[]" "Inl (Thrown ''Content-Type cannot be set to an Array'')"
        "[ResStatus 200, ResAppend ''content-type'' ''text/html'']"]
    by (simp add: lenient_lib_def createRemixHeaders_def node_append_def two_content_types_def
        single_content_type_def sendRemixResponse_def res_call_def)
  from whole cut show ?thesis by blast
qed

text \<open>
  The claim C3 as stated fails on a host that refuses a call: Express throws on the
  second \<open>res.append\<close> for \<open>Content-Type\<close>, so a list of two values under that name comes
  back as its first value only.
\<close>

theorem content_type_list_cut_short:
  "createRemixHeaders lenient_lib [(''content-type'', Multi [''text/html'', ''text/plain''])] =
     Inr (headers_raw two_content_types) \<and>
   sendRemixResponse single_content_type two_content_types [] =
     (Inl (Thrown ''Content-Type cannot be set to an Array''),
      [ResStatus 200, ResAppend ''content-type'' ''text/html'']) \<and>
   appended ''content-type'' [ResStatus 200, ResAppend ''content-type'' ''text/html''] =
     [''text/html'']"
  by (simp add: lenient_lib_def createRemixHeaders_def node_append_def two_content_types_def
      single_content_type_def sendRemixResponse_def res_call_def)

text \<open>
  C4. Whatever the host does, the calls \<open>sendRemixResponse\<close> makes on the response are
  an initial part of the fixed sequence: the status, then every header value (name by
  name, each name's values in their order), then the one body call. It makes the whole
  sequence exactly when it returns normally, and a body call is made only as the last
  call of the whole sequence, after every header value. On a host that lets the calls
  of the sequence through it returns normally, unless the body's \<open>pipe\<close> is not a
  function: then no body call is made at all.
\<close>

theorem status_headers_body_order:
  assumes "sendRemixResponse h response log = (r, log')"
  shows "\<exists>d. log' = log @ d \<and>
           prefix d (ResStatus (status response) # header_ops (headers_raw response) @
                     [body_step (body response)]) \<and>
           (r = Inr () \<longleftrightarrow>
              d = ResStatus (status response) # header_ops (headers_raw response) @
                  [body_step (body response)]) \<and>
           ((\<exists>c \<in> set d. is_body_op c) \<longrightarrow>
              d = ResStatus (status response) # header_ops (headers_raw response) @
                  [body_step (body response)]) \<and>
           (accepts h log (ResStatus (status response) # header_ops (headers_raw response) @
                           [body_step (body response)]) \<and>
            (\<forall>v. body response \<noteq> PipeValueBody v) \<longrightarrow> r = Inr ()) \<and>
           ((\<exists>v. body response = PipeValueBody v) \<longrightarrow> \<not> (\<exists>c \<in> set d. is_body_op c))"
proof -
  let ?pre = "ResStatus (status response) # header_ops (headers_raw response)"
  from sendRemixResponse_run[OF assms] obtain d where
    d: "log' = log @ d" "prefix d (write_order response)" "r = Inr () \<longleftrightarrow> d = write_order response"
    by blast
  have w: "write_order response = ?pre @ [body_step (body response)]"
    by (simp add: write_order_def)
  have pre: "filter is_body_op ?pre = []"
    by (simp add: no_body_op_in_header_ops)
  have last: "d = write_order response" if c: "\<exists>c \<in> set d. is_body_op c"
  proof (rule ccontr)
    assume "d \<noteq> write_order response"
    with d(2) prefix_snoc[of d ?pre "body_step (body response)"] have "prefix d ?pre"
      unfolding w by simp
    then obtain rest where "?pre = d @ rest" by (auto simp: prefix_def)
    with pre have "filter is_body_op d = []"
      by (metis append_is_Nil_conv filter_append)
    with c show False by (auto simp: filter_empty_conv)
  qed
  have returns: "r = Inr ()"
    if "accepts h log (write_order response) \<and> (\<forall>v. body response \<noteq> PipeValueBody v)"
    using sendRemixResponse_accepts[of h log response] that assms by simp
  have none: "\<not> (\<exists>c \<in> set d. is_body_op c)" if "\<exists>v. body response = PipeValueBody v"
  proof
    assume "\<exists>c \<in> set d. is_body_op c"
    from last[OF this] d(3) have "r = Inr ()" by simp
    moreover from that obtain v where "body response = PipeValueBody v" by blast
    from sendRemixResponse_pipe_value[OF this assms] have "\<exists>e. r = Inl e" by simp
    ultimately show False by auto
  qed
  from d last returns none show ?thesis
    unfolding w by (intro exI[of _ d]) auto
qed

theorem status_headers_body_order_witness:
  "accepts accepting []
     [ResStatus 200, ResAppend ''content-type'' ''text/plain'', ResEnd (Some [111, 107])] \<and>
   (\<forall>v. body plain_ok \<noteq> PipeValueBody v) \<and>
   sendRemixResponse accepting plain_ok [] =
     (Inr (), [ResStatus 200, ResAppend ''content-type'' ''text/plain'', ResEnd (Some [111, 107])]) \<and>
   (\<exists>c \<in> set [ResStatus 200, ResAppend ''content-type'' ''text/plain'', ResEnd (Some [111, 107])].
      is_body_op c) \<and>
   ResStatus (status plain_ok) # header_ops (headers_raw plain_ok) @ [body_step (body plain_ok)] =
     [ResStatus 200, ResAppend ''content-type'' ''text/plain'', ResEnd (Some [111, 107])] \<and>
   body pipe_is_a_number = PipeValueBody ''{ pipe: 1 }'' \<and>
   sendRemixResponse accepting pipe_is_a_number [] =
     (Inl (Thrown ''TypeError: response.body.pipe is not a function''),
      [ResStatus 200, ResAppend ''content-type'' ''text/plain''])"
proof -
  have whole: "accepts accepting []
     [ResStatus 200, ResAppend ''content-type'' ''text/plain'', ResEnd (Some [111, 107])] \<and>
   (\<forall>v. body plain_ok \<noteq> PipeValueBody v) \<and>
   sendRemixResponse accepting plain_ok [] =
     (Inr (), [ResStatus 200, ResAppend ''content-type'' ''text/plain'', ResEnd (Some [111, 107])]) \<and>
   (\<exists>c \<in> set [ResStatus 200, ResAppend ''content-type'' ''text/plain'', ResEnd (Some [111, 107])].
      is_body_op c) \<and>
   ResStatus (status plain_ok) # header_ops (headers_raw plain_ok) @ [body_step (body plain_ok)] =
     [ResStatus 200, ResAppend ''content-type'' ''text/plain'', ResEnd (Some [111, 107])]"
    using status_headers_body_order [of accepting plain_ok "[]" "Inr ()"
        "[ResStatus 200, ResAppend ''content-type'' ''text/plain'', ResEnd (Some [111, 107])]"]
    by (simp add: plain_ok_def accepting_def sendRemixResponse_def res_call_def header_ops_def
        body_step_def)
  have cut: "body pipe_is_a_number = PipeValueBody ''{ pipe: 1 }'' \<and>
   sendRemixResponse accepting pipe_is_a_number [] =
     (Inl (Thrown ''TypeError: response.body.pipe is not a function''),
      [ResStatus 200, ResAppend ''content-type'' ''text/plain''])"
    using status_headers_body_order [of accepting pipe_is_a_number "[]"
        "Inl (Thrown ''TypeError: response.body.pipe is not a function'')"
        "[ResStatus 200, ResAppend ''content-type'' ''text/plain'']"]
    by (simp add: pipe_is_a_number_def accepting_def sendRemixResponse_def res_call_def)
  from whole cut show ?thesis by blast
qed




text \<open>
  C9, as the code has it. A body that is present, is not a Buffer and has no truthy
  \<open>pipe\<close> property is treated as no body: the run is the run for the same response
  without a body, and when the host lets the status call, the header calls and
  \<open>res.end()\<close> through, the sender makes exactly these calls and returns, its one
  body call being the last and carrying no bytes. A body whose \<open>pipe\<close> property is
  truthy but not a function takes the \<open>pipe\<close> branch instead: the sender throws once
  status and headers are through and never ends the response.
\<close>

theorem other_body_as_absent:
  "(body response = OtherBody v \<longrightarrow>
      sendRemixResponse h response log = sendRemixResponse h (response\<lparr>body := NoBody\<rparr>) log \<and>
      (accepts h log (ResStatus (status response) # header_ops (headers_raw response) @
                      [ResEnd None]) \<longrightarrow>
         sendRemixResponse h response log =
           (Inr (), log @ ResStatus (status response) # header_ops (headers_raw response) @
                          [ResEnd None])) \<and>
      filter is_body_op (ResStatus (status response) # header_ops (headers_raw response)) = []) \<and>
   (body response = PipeValueBody v \<longrightarrow>
      (accepts h log (ResStatus (status response) # header_ops (headers_raw response)) \<longrightarrow>
         sendRemixResponse h response log =
           (Inl (Thrown ''TypeError: response.body.pipe is not a function''),
            log @ ResStatus (status response) # header_ops (headers_raw response))) \<and>
      (sendRemixResponse h response log = (r, log') \<longrightarrow>
         (\<exists>e. r = Inl e) \<and>
         (\<exists>d. log' = log @ d \<and>
              prefix d (ResStatus (status response) # header_ops (headers_raw response)) \<and>
              filter is_body_op d = [])))"
proof -
  let ?s = "ResStatus (status response)"
  let ?pre = "?s # header_ops (headers_raw response)"
  have pre: "filter is_body_op ?pre = []"
    by (simp add: no_body_op_in_header_ops)
  have same: "sendRemixResponse h response log =
      sendRemixResponse h (response\<lparr>body := NoBody\<rparr>) log"
    if "body response = OtherBody v"
    using that by (simp add: sendRemixResponse_def split: prod.splits sum.splits)
  have ended: "sendRemixResponse h response log = (Inr (), log @ ?pre @ [ResEnd None])"
    if "body response = OtherBody v" "accepts h log (?pre @ [ResEnd None])"
    using sendRemixResponse_accepts[of h log response] that
    by (simp add: write_order_def body_step_def)
  have thrown: "sendRemixResponse h response log =
      (Inl (Thrown ''TypeError: response.body.pipe is not a function''), log @ ?pre)"
    if b: "body response = PipeValueBody v" and a: "accepts h log ?pre"
  proof -
    from a have "h log ?s = None" "accepts h (log @ [?s]) (header_ops (headers_raw response))"
      by simp_all
    then have "res_call h ?s log = (Inr (), log @ [?s])"
      "append_entries h (headers_raw response) (log @ [?s]) =
         (Inr (), (log @ [?s]) @ header_ops (headers_raw response))"
      by (simp_all add: res_call_def append_entries_accepts)
    with b show ?thesis by (simp add: sendRemixResponse_def)
  qed
  have never: "(\<exists>e. r = Inl e) \<and>
      (\<exists>d. log' = log @ d \<and> prefix d ?pre \<and> filter is_body_op d = [])"
    if b: "body response = PipeValueBody v" and run: "sendRemixResponse h response log = (r, log')"
  proof -
    from sendRemixResponse_pipe_value[OF b run] obtain d where
      d: "\<exists>e. r = Inl e" "log' = log @ d" "prefix d ?pre"
      by blast
    from d(3) obtain rest where "?pre = d @ rest" by (auto simp: prefix_def)
    with pre have "filter is_body_op d = []"
      by (metis append_is_Nil_conv filter_append)
    with d show ?thesis by blast
  qed
  from pre same ended thrown never show ?thesis by simp
qed

theorem other_body_as_absent_witness:
  "body string_body = OtherBody ''ok'' \<and>
   accepts accepting []
     (ResStatus (status string_body) # header_ops (headers_raw string_body) @ [ResEnd None]) \<and>
   sendRemixResponse accepting string_body [] =
     (Inr (), [ResStatus 204, ResAppend ''x-a'' ''1'', ResEnd None]) \<and>
   sendRemixResponse accepting (string_body\<lparr>body := NoBody\<rparr>) [] =
     (Inr (), [ResStatus 204, ResAppend ''x-a'' ''1'', ResEnd None]) \<and>
   body pipe_is_a_number = PipeValueBody ''{ pipe: 1 }'' \<and>
   accepts accepting []
     (ResStatus (status pipe_is_a_number) # header_ops (headers_raw pipe_is_a_number)) \<and>
   sendRemixResponse accepting pipe_is_a_number [] =
     (Inl (Thrown ''TypeError: response.body.pipe is not a function''),
      [ResStatus 200, ResAppend ''content-type'' ''text/plain''])"
proof -
  have absent: "body string_body = OtherBody ''ok'' \<and>
   accepts accepting []
     (ResStatus (status string_body) # header_ops (headers_raw string_body) @ [ResEnd None]) \<and>
   sendRemixResponse accepting string_body [] =
     (Inr (), [ResStatus 204, ResAppend ''x-a'' ''1'', ResEnd None]) \<and>
   sendRemixResponse accepting (string_body\<lparr>body := NoBody\<rparr>) [] =
     (Inr (), [ResStatus 204, ResAppend ''x-a'' ''1'', ResEnd None])"
    using other_body_as_absent [of string_body "''ok''" accepting "[]"]
    by (simp add: string_body_def accepting_def sendRemixResponse_def res_call_def header_ops_def)
  have thrown: "body pipe_is_a_number = PipeValueBody ''{ pipe: 1 }'' \<and>
   accepts accepting []
     (ResStatus (status pipe_is_a_number) # header_ops (headers_raw pipe_is_a_number)) \<and>
   sendRemixResponse accepting pipe_is_a_number [] =
     (Inl (Thrown ''TypeError: response.body.pipe is not a function''),
      [ResStatus 200, ResAppend ''content-type'' ''text/plain''])"
    using other_body_as_absent [of pipe_is_a_number "''{ pipe: 1 }''" accepting "[]"
        "Inl (Thrown ''TypeError: response.body.pipe is not a function'')"
        "[ResStatus 200, ResAppend ''content-type'' ''text/plain'']"]
    by (simp add: pipe_is_a_number_def accepting_def sendRemixResponse_def res_call_def
        header_ops_def)
  from absent thrown show ?thesis by blast
qed

text \<open>
  The claim C9 as stated fails for a body that has a \<open>pipe\<close> property which is not a
  method, such as \<open>{ pipe: 1 }\<close>: the sender throws after status and headers and does
  not end the response, where for the same response without a body it ends it.
\<close>

theorem pipe_value_not_ended:
  "sendRemixResponse accepting pipe_is_a_number [] =
     (Inl (Thrown ''TypeError: response.body.pipe is not a function''),
      [ResStatus 200, ResAppend ''content-type'' ''text/plain'']) \<and>
   sendRemixResponse accepting (pipe_is_a_number\<lparr>body := NoBody\<rparr>) [] =
     (Inr (), [ResStatus 200, ResAppend ''content-type'' ''text/plain'', ResEnd None])"
  by (simp add: pipe_is_a_number_def accepting_def sendRemixResponse_def res_call_def)

text \<open>
  C6, as the code has it. An entry whose value is \<open>undefined\<close> or the empty string is
  skipped: the result is the one for the collection without the entry, and (the names
  being distinct) the result has no line under that name. A scalar entry never yields
  an empty header value; an empty value in the result comes from an empty string inside
  a list-valued entry, which is appended like any other element.
\<close>

theorem falsy_entries_skipped:
  assumes "createRemixHeaders lib hs = Inr result"
  shows "((name, v) \<in> set hs \<and> \<not> truthy v \<and> distinct (map fst hs) \<longrightarrow>
            name \<notin> set (map fst result)) \<and>
         (hs = xs @ (name, v) # ys \<and> \<not> truthy v \<longrightarrow>
            createRemixHeaders lib (xs @ ys) = Inr result) \<and>
         ((n, vals) \<in> set result \<and> [] \<in> set vals \<longrightarrow>
            (\<exists>ws. (n, Multi ws) \<in> set hs \<and> [] \<in> set ws))"
proof (intro conjI impI)
  from assms have loop: "headers_loop lib hs [] = Inr result"
    by (simp add: createRemixHeaders_def)
  {
    assume a: "(name, v) \<in> set hs \<and> \<not> truthy v \<and> distinct (map fst hs)"
    show "name \<notin> set (map fst result)"
    proof
      assume "name \<in> set (map fst result)"
      from headers_loop_keys[OF loop this] obtain v' where
        v': "(name, v') \<in> set hs" "truthy v'" by auto
      from a v'(1) have "v' = v"
        by (meson eq_key_imp_eq_value)
      with a v'(2) show False by simp
    qed
  next
    assume "hs = xs @ (name, v) # ys \<and> \<not> truthy v"
    with assms show "createRemixHeaders lib (xs @ ys) = Inr result"
      by (simp add: createRemixHeaders_def headers_loop_skip)
  next
    assume "(n, vals) \<in> set result \<and> [] \<in> set vals"
    then have "(n, vals) \<in> set result" "[] \<in> set vals" by simp_all
    from headers_loop_lines[OF loop this]
    show "\<exists>ws. (n, Multi ws) \<in> set hs \<and> [] \<in> set ws" by auto
  }
qed

theorem falsy_entries_skipped_witness:
  "createRemixHeaders lenient_lib
     [(''x-empty'', Single ''''), (''x-missing'', Undefined), (''set-cookie'', Multi ['''', ''a=1''])] =
     Inr [(''set-cookie'', ['''', ''a=1''])] \<and>
   \<not> truthy (Single '''') \<and>
   distinct (map fst
     [(''x-empty'', Single ''''), (''x-missing'', Undefined), (''set-cookie'', Multi ['''', ''a=1''])]) \<and>
   ''x-empty'' \<notin> set (map fst [(''set-cookie'', ['''', ''a=1''])]) \<and>
   createRemixHeaders lenient_lib
     [(''x-missing'', Undefined), (''set-cookie'', Multi ['''', ''a=1''])] =
     Inr [(''set-cookie'', ['''', ''a=1''])] \<and>
   [] \<in> set ['''', ''a=1''] \<and>
   (\<exists>ws. (''set-cookie'', Multi ws) \<in>
      set [(''x-empty'', Single ''''), (''x-missing'', Undefined),
           (''set-cookie'', Multi ['''', ''a=1''])] \<and> [] \<in> set ws)"
  using falsy_entries_skipped [of lenient_lib
      "[(''x-empty'', Single ''''), (''x-missing'', Undefined), (''set-cookie'', Multi ['''', ''a=1''])]"
      "[(''set-cookie'', ['''', ''a=1''])]" "''x-empty''" "Single ''''" "[]"
      "[(''x-missing'', Undefined), (''set-cookie'', Multi ['''', ''a=1''])]"
      "''set-cookie''" "['''', ''a=1'']"]
  by (simp add: lenient_lib_def createRemixHeaders_def node_append_def node_set_def)

text \<open>
  The claim C6 as stated fails: a list-valued entry holding the empty string is truthy,
  and its empty element becomes an empty header value.
\<close>

theorem empty_value_emitted:
  "createRemixHeaders lenient_lib [(''set-cookie'', Multi [''''])] = Inr [(''set-cookie'', [''''])]"
  by (simp add: lenient_lib_def createRemixHeaders_def node_append_def)

section \<open>The middleware\<close>

lemma sendRemixResponse_throws:
  assumes "sendRemixResponse h response log = (Inl e, log')"
  shows "\<exists>d. log' = log @ d \<and> strict_prefix d (write_order response)"
proof -
  from sendRemixResponse_run[OF assms] obtain d where
    "log' = log @ d" "prefix d (write_order response)" "d \<noteq> write_order response"
    by auto
  then show ?thesis by (auto simp: strict_prefix_def)
qed

text \<open>
  C1, as the code has it. When building the request, computing the load context or the
  runtime handler fails, the middleware makes no call on the response and passes the
  failure to \<open>next\<close>. When \<open>sendRemixResponse\<close> itself throws, the failure is passed
  to \<open>next\<close> as well, and the calls made before the throw (fewer than the whole
  sequence) stay on the response. When nothing fails the whole sequence is written and
  \<open>next\<close> is not called. In every case \<open>next\<close> is called at most once.
\<close>

theorem failure_forwarded_once:
  assumes "createRequestHandler lib getLoadContext handleRequest h nxt req x = (settled, x')"
  shows "(createRemixRequest lib req = Inl e \<longrightarrow>
            res_ops x' = res_ops x \<and> next_calls x' = next_calls x @ [e]) \<and>
         (createRemixRequest lib req = Inr request \<and>
          load_context getLoadContext req (res_ops x) = Inl e \<longrightarrow>
            res_ops x' = res_ops x \<and> next_calls x' = next_calls x @ [e]) \<and>
         (createRemixRequest lib req = Inr request \<and>
          load_context getLoadContext req (res_ops x) = Inr c \<and>
          handleRequest request c = Inl e \<longrightarrow>
            res_ops x' = res_ops x \<and> next_calls x' = next_calls x @ [e]) \<and>
         (createRemixRequest lib req = Inr request \<and>
          load_context getLoadContext req (res_ops x) = Inr c \<and>
          handleRequest request c = Inr response \<and>
          sendRemixResponse h response (res_ops x) = (Inl e, log) \<longrightarrow>
            res_ops x' = log \<and> next_calls x' = next_calls x @ [e] \<and>
            (\<exists>d. log = res_ops x @ d \<and> strict_prefix d (write_order response))) \<and>
         (createRemixRequest lib req = Inr request \<and>
          load_context getLoadContext req (res_ops x) = Inr c \<and>
          handleRequest request c = Inr response \<and>
          sendRemixResponse h response (res_ops x) = (Inr (), log) \<longrightarrow>
            res_ops x' = res_ops x @ write_order response \<and> next_calls x' = next_calls x) \<and>
         (next_calls x' = next_calls x \<or> (\<exists>e'. next_calls x' = next_calls x @ [e']))"
proof -
  note defs = createRequestHandler_def try_block_def next_call_def
  have build: "createRemixRequest lib req = Inl e \<longrightarrow>
      res_ops x' = res_ops x \<and> next_calls x' = next_calls x @ [e]"
    using assms by (auto simp: defs split: option.splits)
  have loading: "createRemixRequest lib req = Inr request \<and>
      load_context getLoadContext req (res_ops x) = Inl e \<longrightarrow>
      res_ops x' = res_ops x \<and> next_calls x' = next_calls x @ [e]"
    using assms by (auto simp: defs split: option.splits)
  have runtime: "createRemixRequest lib req = Inr request \<and>
      load_context getLoadContext req (res_ops x) = Inr c \<and>
      handleRequest request c = Inl e \<longrightarrow>
      res_ops x' = res_ops x \<and> next_calls x' = next_calls x @ [e]"
    using assms by (auto simp: defs split: option.splits)
  have sending: "createRemixRequest lib req = Inr request \<and>
      load_context getLoadContext req (res_ops x) = Inr c \<and>
      handleRequest request c = Inr response \<and>
      sendRemixResponse h response (res_ops x) = (Inl e, log) \<longrightarrow>
      res_ops x' = log \<and> next_calls x' = next_calls x @ [e] \<and>
      (\<exists>d. log = res_ops x @ d \<and> strict_prefix d (write_order response))"
  proof
    assume a: "createRemixRequest lib req = Inr request \<and>
      load_context getLoadContext req (res_ops x) = Inr c \<and>
      handleRequest request c = Inr response \<and>
      sendRemixResponse h response (res_ops x) = (Inl e, log)"
    with assms have "res_ops x' = log \<and> next_calls x' = next_calls x @ [e]"
      by (auto simp: defs split: option.splits)
    moreover from a sendRemixResponse_throws[of h response "res_ops x" e log]
    have "\<exists>d. log = res_ops x @ d \<and> strict_prefix d (write_order response)" by simp
    ultimately show "res_ops x' = log \<and> next_calls x' = next_calls x @ [e] \<and>
        (\<exists>d. log = res_ops x @ d \<and> strict_prefix d (write_order response))"
      by simp
  qed
  have sent: "createRemixRequest lib req = Inr request \<and>
      load_context getLoadContext req (res_ops x) = Inr c \<and>
      handleRequest request c = Inr response \<and>
      sendRemixResponse h response (res_ops x) = (Inr (), log) \<longrightarrow>
      res_ops x' = res_ops x @ write_order response \<and> next_calls x' = next_calls x"
  proof
    assume a: "createRemixRequest lib req = Inr request \<and>
      load_context getLoadContext req (res_ops x) = Inr c \<and>
      handleRequest request c = Inr response \<and>
      sendRemixResponse h response (res_ops x) = (Inr (), log)"
    with assms have "res_ops x' = log \<and> next_calls x' = next_calls x"
      by (auto simp: defs)
    moreover from a sendRemixResponse_returns[of h response "res_ops x" log]
    have "log = res_ops x @ write_order response" by simp
    ultimately show "res_ops x' = res_ops x @ write_order response \<and> next_calls x' = next_calls x"
      by simp
  qed
  have once: "next_calls x' = next_calls x \<or> (\<exists>e'. next_calls x' = next_calls x @ [e'])"
    using assms by (auto simp: defs split: sum.splits prod.splits option.splits)
  from build loading runtime sending sent once show ?thesis
    by (intro conjI)
qed

theorem failure_forwarded_once_witness:
  "(createRemixRequest rejecting_url
      get_index = Inl (Thrown ''Invalid URL'') \<and>
    createRequestHandler rejecting_url
      no_callback (resolves_with plain_ok) accepting next_returns get_index fresh =
      (Inr (), \<lparr> res_ops = [], next_calls = [Thrown ''Invalid URL''] \<rparr>)) \<and>
   (load_context (callback_throws (Thrown ''no session'')) get_index [] =
      Inl (Thrown ''no session'') \<and>
    createRequestHandler lenient_lib (callback_throws (Thrown ''no session''))
      (resolves_with plain_ok) accepting next_returns get_index fresh =
      (Inr (), \<lparr> res_ops = [], next_calls = [Thrown ''no session''] \<rparr>)) \<and>
   (createRequestHandler lenient_lib no_callback (rejects_with (Thrown ''loader failed''))
      accepting next_returns get_index fresh =
      (Inr (), \<lparr> res_ops = [], next_calls = [Thrown ''loader failed''] \<rparr>)) \<and>
   (sendRemixResponse single_content_type two_content_types [] =
      (Inl (Thrown ''Content-Type cannot be set to an Array''),
       [ResStatus 200, ResAppend ''content-type'' ''text/html'']) \<and>
    strict_prefix [ResStatus 200, ResAppend ''content-type'' ''text/html'']
      (write_order two_content_types) \<and>
    createRequestHandler lenient_lib no_callback (resolves_with two_content_types)
      single_content_type next_returns get_index fresh =
      (Inr (), \<lparr> res_ops = [ResStatus 200, ResAppend ''content-type'' ''text/html''],
                 next_calls = [Thrown ''Content-Type cannot be set to an Array''] \<rparr>)) \<and>
   (sendRemixResponse accepting plain_ok [] = (Inr (), write_order plain_ok) \<and>
    createRequestHandler lenient_lib no_callback (resolves_with plain_ok)
      accepting next_returns get_index fresh =
      (Inr (), \<lparr> res_ops = [ResStatus 200, ResAppend ''content-type'' ''text/plain'',
                            ResEnd (Some [111, 107])],
                 next_calls = [] \<rparr>))"
proof -
  note eval = createRequestHandler_def try_block_def next_call_def load_context_def
        no_callback_def fresh_def get_index_def lenient_lib_def createRemixRequest_def
        createRemixHeaders_def node_append_def rejecting_url_def callback_throws_def
        resolves_with_def rejects_with_def next_returns_def
  have build: "createRemixRequest rejecting_url
      get_index = Inl (Thrown ''Invalid URL'') \<and>
    createRequestHandler rejecting_url
      no_callback (resolves_with plain_ok) accepting next_returns get_index fresh =
      (Inr (), \<lparr> res_ops = [], next_calls = [Thrown ''Invalid URL''] \<rparr>)"
    using failure_forwarded_once [of
        rejecting_url
        no_callback "resolves_with plain_ok" accepting next_returns get_index fresh "Inr ()"
        "\<lparr> res_ops = [], next_calls = [Thrown ''Invalid URL''] \<rparr>" "Thrown ''Invalid URL''"]
    by (simp add: eval)
  have loading: "load_context (callback_throws (Thrown ''no session'')) get_index [] =
      Inl (Thrown ''no session'') \<and>
    createRequestHandler lenient_lib (callback_throws (Thrown ''no session''))
      (resolves_with plain_ok) accepting next_returns get_index fresh =
      (Inr (), \<lparr> res_ops = [], next_calls = [Thrown ''no session''] \<rparr>)"
    using failure_forwarded_once [of lenient_lib
        "callback_throws (Thrown ''no session'')"
        "resolves_with plain_ok" accepting next_returns get_index fresh "Inr ()"
        "\<lparr> res_ops = [], next_calls = [Thrown ''no session''] \<rparr>" "Thrown ''no session''"
        "\<lparr> request_url = ''http://localhost:3000/'', init_method = ''GET'',
           init_headers = [(''accept'', [''text/html'', ''application/json''])],
           init_body = None \<rparr>"]
    by (simp add: eval)
  have runtime: "createRequestHandler lenient_lib no_callback (rejects_with (Thrown ''loader failed''))
      accepting next_returns get_index fresh =
      (Inr (), \<lparr> res_ops = [], next_calls = [Thrown ''loader failed''] \<rparr>)"
    using failure_forwarded_once [of lenient_lib no_callback
        "rejects_with (Thrown ''loader failed'')" accepting next_returns get_index fresh "Inr ()"
        "\<lparr> res_ops = [], next_calls = [Thrown ''loader failed''] \<rparr>" "Thrown ''loader failed''"
        "\<lparr> request_url = ''http://localhost:3000/'', init_method = ''GET'',
           init_headers = [(''accept'', [''text/html'', ''application/json''])],
           init_body = None \<rparr>" None]
    by (simp add: eval)
  have sending: "sendRemixResponse single_content_type two_content_types [] =
      (Inl (Thrown ''Content-Type cannot be set to an Array''),
       [ResStatus 200, ResAppend ''content-type'' ''text/html'']) \<and>
    strict_prefix [ResStatus 200, ResAppend ''content-type'' ''text/html'']
      (write_order two_content_types) \<and>
    createRequestHandler lenient_lib no_callback (resolves_with two_content_types)
      single_content_type next_returns get_index fresh =
      (Inr (), \<lparr> res_ops = [ResStatus 200, ResAppend ''content-type'' ''text/html''],
                 next_calls = [Thrown ''Content-Type cannot be set to an Array''] \<rparr>)"
    using failure_forwarded_once [of lenient_lib no_callback
        "resolves_with two_content_types" single_content_type next_returns get_index fresh "Inr ()"
        "\<lparr> res_ops = [ResStatus 200, ResAppend ''content-type'' ''text/html''],
           next_calls = [Thrown ''Content-Type cannot be set to an Array''] \<rparr>"
        "Thrown ''Content-Type cannot be set to an Array''"
        "\<lparr> request_url = ''http://localhost:3000/'', init_method = ''GET'',
           init_headers = [(''accept'', [''text/html'', ''application/json''])],
           init_body = None \<rparr>" None two_content_types
        "[ResStatus 200, ResAppend ''content-type'' ''text/html'']"]
    by (simp add: eval two_content_types_def single_content_type_def sendRemixResponse_def
        res_call_def)
  have sent: "sendRemixResponse accepting plain_ok [] = (Inr (), write_order plain_ok) \<and>
    createRequestHandler lenient_lib no_callback (resolves_with plain_ok)
      accepting next_returns get_index fresh =
      (Inr (), \<lparr> res_ops = [ResStatus 200, ResAppend ''content-type'' ''text/plain'',
                            ResEnd (Some [111, 107])],
                 next_calls = [] \<rparr>)"
    using failure_forwarded_once [of lenient_lib no_callback
        "resolves_with plain_ok" accepting next_returns get_index fresh "Inr ()"
        "\<lparr> res_ops = [ResStatus 200, ResAppend ''content-type'' ''text/plain'',
                      ResEnd (Some [111, 107])],
           next_calls = [] \<rparr>"
        "Thrown ''unused''"
        "\<lparr> request_url = ''http://localhost:3000/'', init_method = ''GET'',
           init_headers = [(''accept'', [''text/html'', ''application/json''])],
           init_body = None \<rparr>" None plain_ok
        "[ResStatus 200, ResAppend ''content-type'' ''text/plain'', ResEnd (Some [111, 107])]"]
    by (simp add: eval plain_ok_def accepting_def sendRemixResponse_def res_call_def
        write_order_def header_ops_def body_step_def)
  from build loading runtime sending sent show ?thesis
    by blast
qed

text \<open>
  The claim C1 as stated fails where the response-sending path throws part-way: with a
  response carrying two \<open>Content-Type\<close> values, the status and the first value are on
  the response when the second \<open>res.append\<close> throws, and \<open>next\<close> is called too.
\<close>

theorem written_and_forwarded:
  "createRequestHandler lenient_lib no_callback (resolves_with two_content_types)
     single_content_type next_returns get_index fresh =
   (Inr (), \<lparr> res_ops = [ResStatus 200, ResAppend ''content-type'' ''text/html''],
              next_calls = [Thrown ''Content-Type cannot be set to an Array''] \<rparr>)"
  by (simp add: createRequestHandler_def try_block_def next_call_def load_context_def
      no_callback_def fresh_def get_index_def lenient_lib_def two_content_types_def
      resolves_with_def next_returns_def
      single_content_type_def createRemixRequest_def createRemixHeaders_def node_append_def
      sendRemixResponse_def res_call_def)

text \<open>
  C7. A response whose body is a stream that fails after two chunks: the middleware
  starts the relay with \<open>body.pipe(res)\<close> and settles; \<open>next\<close> is not called, and
  nothing in the run depends on the failure the stream will emit.
\<close>

theorem stream_failure_not_forwarded:
  "createRequestHandler lenient_lib no_callback (resolves_with failing_stream)
     accepting next_returns get_index fresh =
   (Inr (), \<lparr> res_ops = [ResStatus 200, ResAppend ''content-type'' ''text/plain'',
                         PipeToRes (Readable [[111], [107]] (Some (Thrown ''ECONNRESET'')))],
              next_calls = [] \<rparr>)"
  by (simp add: createRequestHandler_def try_block_def next_call_def load_context_def
      no_callback_def fresh_def get_index_def lenient_lib_def failing_stream_def
      resolves_with_def next_returns_def
      accepting_def createRemixRequest_def createRemixHeaders_def node_append_def
      sendRemixResponse_def res_call_def)

text \<open>
  C10, as the code has it. The promise of the middleware rejects only when \<open>next\<close>
  itself throws, and then with the value \<open>next\<close> threw: every throw of the \<open>try\<close> block
  is caught, and the call \<open>next(error)\<close> in the \<open>catch\<close> block is not guarded. So the
  promise resolves whenever \<open>next\<close> returns on the value it is called with. \<open>next\<close>
  is called only with the value one of the steps failed with; when the response was
  sent (every step returned normally) it is not called and the promise resolves.
\<close>

theorem rejects_only_when_next_throws:
  assumes "createRequestHandler lib getLoadContext handleRequest h nxt req x = (settled, x')"
  shows "(settled = Inr () \<or>
            (\<exists>e e'. settled = Inl e' \<and> nxt e = Some e' \<and> next_calls x' = next_calls x @ [e])) \<and>
         ((\<forall>e. next_calls x' = next_calls x @ [e] \<longrightarrow> nxt e = None) \<longrightarrow> settled = Inr ()) \<and>
         (next_calls x' \<noteq> next_calls x \<longrightarrow>
            (\<exists>e. next_calls x' = next_calls x @ [e] \<and>
               (createRemixRequest lib req = Inl e \<or>
                (\<exists>request. createRemixRequest lib req = Inr request \<and>
                   (load_context getLoadContext req (res_ops x) = Inl e \<or>
                    (\<exists>c. load_context getLoadContext req (res_ops x) = Inr c \<and>
                       (handleRequest request c = Inl e \<or>
                        (\<exists>response log. handleRequest request c = Inr response \<and>
                           sendRemixResponse h response (res_ops x) = (Inl e, log))))))))) \<and>
         (createRemixRequest lib req = Inr request \<and>
          load_context getLoadContext req (res_ops x) = Inr c \<and>
          handleRequest request c = Inr response \<and>
          sendRemixResponse h response (res_ops x) = (Inr (), log) \<longrightarrow>
            settled = Inr () \<and> next_calls x' = next_calls x \<and> res_ops x' = log)"
proof -
  note defs = createRequestHandler_def try_block_def next_call_def
  have settles: "settled = Inr () \<or>
      (\<exists>e e'. settled = Inl e' \<and> nxt e = Some e' \<and> next_calls x' = next_calls x @ [e])"
    using assms by (auto simp: defs split: sum.splits prod.splits option.splits)
  have resolves: "(\<forall>e. next_calls x' = next_calls x @ [e] \<longrightarrow> nxt e = None) \<longrightarrow>
      settled = Inr ()"
    using settles by auto
  have only_on_error: "next_calls x' \<noteq> next_calls x \<longrightarrow>
      (\<exists>e. next_calls x' = next_calls x @ [e] \<and>
         (createRemixRequest lib req = Inl e \<or>
          (\<exists>request. createRemixRequest lib req = Inr request \<and>
             (load_context getLoadContext req (res_ops x) = Inl e \<or>
              (\<exists>c. load_context getLoadContext req (res_ops x) = Inr c \<and>
                 (handleRequest request c = Inl e \<or>
                  (\<exists>response log. handleRequest request c = Inr response \<and>
                     sendRemixResponse h response (res_ops x) = (Inl e, log))))))))"
    using assms by (auto simp: defs split: sum.splits prod.splits option.splits)
  have sent: "createRemixRequest lib req = Inr request \<and>
      load_context getLoadContext req (res_ops x) = Inr c \<and>
      handleRequest request c = Inr response \<and>
      sendRemixResponse h response (res_ops x) = (Inr (), log) \<longrightarrow>
      settled = Inr () \<and> next_calls x' = next_calls x \<and> res_ops x' = log"
    using assms by (auto simp: defs)
  from settles resolves only_on_error sent show ?thesis
    by (intro conjI)
qed

theorem rejects_only_when_next_throws_witness:
  "(createRequestHandler lenient_lib no_callback (rejects_with (Thrown ''loader failed''))
      accepting next_returns get_index fresh =
      (Inr (), \<lparr> res_ops = [], next_calls = [Thrown ''loader failed''] \<rparr>) \<and>
    next_returns (Thrown ''loader failed'') = None \<and>
    next_calls \<lparr> res_ops = [], next_calls = [Thrown ''loader failed''] \<rparr> \<noteq> next_calls fresh) \<and>
   (createRequestHandler lenient_lib no_callback (rejects_with (Thrown ''loader failed''))
      accepting next_throws get_index fresh =
      (Inl (Thrown ''next failed''),
       \<lparr> res_ops = [], next_calls = [Thrown ''loader failed''] \<rparr>) \<and>
    next_throws (Thrown ''loader failed'') = Some (Thrown ''next failed'')) \<and>
   (sendRemixResponse accepting plain_ok (res_ops fresh) =
      (Inr (), [ResStatus 200, ResAppend ''content-type'' ''text/plain'', ResEnd (Some [111, 107])]) \<and>
    createRequestHandler lenient_lib no_callback (resolves_with plain_ok)
      accepting next_throws get_index fresh =
      (Inr (), \<lparr> res_ops = [ResStatus 200, ResAppend ''content-type'' ''text/plain'',
                            ResEnd (Some [111, 107])],
                 next_calls = [] \<rparr>))"
proof -
  note eval = createRequestHandler_def try_block_def next_call_def load_context_def
        no_callback_def fresh_def get_index_def lenient_lib_def createRemixRequest_def
        createRemixHeaders_def node_append_def resolves_with_def rejects_with_def
        next_returns_def next_throws_def
  have failed: "createRequestHandler lenient_lib no_callback (rejects_with (Thrown ''loader failed''))
      accepting next_returns get_index fresh =
      (Inr (), \<lparr> res_ops = [], next_calls = [Thrown ''loader failed''] \<rparr>) \<and>
    next_returns (Thrown ''loader failed'') = None \<and>
    next_calls \<lparr> res_ops = [], next_calls = [Thrown ''loader failed''] \<rparr> \<noteq> next_calls fresh"
    using rejects_only_when_next_throws [of lenient_lib no_callback
        "rejects_with (Thrown ''loader failed'')" accepting next_returns get_index fresh "Inr ()"
        "\<lparr> res_ops = [], next_calls = [Thrown ''loader failed''] \<rparr>"]
    by (simp add: eval)
  have rejected: "createRequestHandler lenient_lib no_callback (rejects_with (Thrown ''loader failed''))
      accepting next_throws get_index fresh =
      (Inl (Thrown ''next failed''),
       \<lparr> res_ops = [], next_calls = [Thrown ''loader failed''] \<rparr>) \<and>
    next_throws (Thrown ''loader failed'') = Some (Thrown ''next failed'')"
    using rejects_only_when_next_throws [of lenient_lib no_callback
        "rejects_with (Thrown ''loader failed'')" accepting next_throws get_index fresh
        "Inl (Thrown ''next failed'')"
        "\<lparr> res_ops = [], next_calls = [Thrown ''loader failed''] \<rparr>"]
    by (simp add: eval)
  have sent: "sendRemixResponse accepting plain_ok (res_ops fresh) =
      (Inr (), [ResStatus 200, ResAppend ''content-type'' ''text/plain'', ResEnd (Some [111, 107])]) \<and>
    createRequestHandler lenient_lib no_callback (resolves_with plain_ok)
      accepting next_throws get_index fresh =
      (Inr (), \<lparr> res_ops = [ResStatus 200, ResAppend ''content-type'' ''text/plain'',
                            ResEnd (Some [111, 107])],
                 next_calls = [] \<rparr>)"
    using rejects_only_when_next_throws [of lenient_lib no_callback
        "resolves_with plain_ok" accepting next_throws get_index fresh "Inr ()"
        "\<lparr> res_ops = [ResStatus 200, ResAppend ''content-type'' ''text/plain'',
                      ResEnd (Some [111, 107])],
           next_calls = [] \<rparr>"
        "\<lparr> request_url = ''http://localhost:3000/'', init_method = ''GET'',
           init_headers = [(''accept'', [''text/html'', ''application/json''])],
           init_body = None \<rparr>" None plain_ok
        "[ResStatus 200, ResAppend ''content-type'' ''text/plain'', ResEnd (Some [111, 107])]"]
    by (simp add: eval plain_ok_def accepting_def sendRemixResponse_def res_call_def)
  from failed rejected sent show ?thesis
    by blast
qed

text \<open>
  The claim C10 as stated fails when \<open>next\<close> throws: the runtime rejects, the
  \<open>catch\<close> block calls \<open>next\<close> with the failure, \<open>next\<close> throws, and the promise of
  the middleware rejects with what \<open>next\<close> threw.
\<close>

theorem rejects_when_next_throws:
  "createRequestHandler lenient_lib no_callback (rejects_with (Thrown ''loader failed''))
     accepting next_throws get_index fresh =
   (Inl (Thrown ''next failed''), \<lparr> res_ops = [], next_calls = [Thrown ''loader failed''] \<rparr>)"
  by (simp add: createRequestHandler_def try_block_def next_call_def load_context_def
      no_callback_def fresh_def get_index_def lenient_lib_def createRemixRequest_def
      createRemixHeaders_def node_append_def rejects_with_def next_throws_def)

end
